theory Spec2Isabelle
  imports Main "HOL-Library.Stream" "HOL-Library.Multiset" "HOL-Library.Sublist"
begin

section \<open>passgen: a shallow embedding of passgen.c\<close>

text \<open>
  The program is one C file. Its functions are embedded as HOL functions:
  \<^item> a \<^verbatim>\<open>char*\<close> buffer is a \<open>char list\<close> whose length is the capacity of the array;
    a read or write outside it is undefined behaviour in C and is the value
    \<open>Inl OutOfBounds\<close> here;
  \<^item> C \<^verbatim>\<open>int\<close> values are \<open>int\<close>; every arithmetic expression of the program
    (\<open>length - 1\<close>, \<open>i + 1\<close>, \<open>i - 1\<close>, \<open>pos + 1\<close>) stays within 32 bits whenever the
    indices lie inside a buffer, so no wrap-around is written out;
  \<^item> the hidden state of \<^verbatim>\<open>rand()\<close> is the stream of the values it is going to return,
    each a natural number (\<^verbatim>\<open>rand()\<close> returns a value in \<open>[0, RAND_MAX]\<close>);
  \<^item> standard output and standard error are the strings written to them.
  The C variable \<^verbatim>\<open>length\<close> is written \<open>len\<close> and \<^verbatim>\<open>count\<close> is written \<open>cnt\<close>, since
  \<open>length\<close> and \<open>count\<close> are functions of the list and multiset libraries.
\<close>

subsection \<open>Character sets (lines 8-12)\<close>

definition UPPERCASE :: string where
  "UPPERCASE = ''ABCDEFGHJKLMNPQRSTUVWXYZ''"

definition LOWERCASE :: string where
  "LOWERCASE = ''abcdefghijkmnpqrstuvwxyz''"

definition NUMBERS :: string where
  "NUMBERS = ''23456789''"

definition SPECIAL :: string where
  "SPECIAL = ''!@#$%^&*()_+-=[]{}|;:,.<>?''"

subsection \<open>Memory, faults and the random source\<close>

datatype fault = OutOfBounds | DivByZero

type_synonym rng = "nat stream"

definition ebind :: "fault + 'a \<Rightarrow> ('a \<Rightarrow> fault + 'b) \<Rightarrow> fault + 'b" where
  "ebind m f = (case m of Inl e \<Rightarrow> Inl e | Inr x \<Rightarrow> f x)"

definition rand :: "rng \<Rightarrow> nat \<times> rng" where
  "rand g = (shd g, stl g)"

definition load :: "char list \<Rightarrow> int \<Rightarrow> fault + char" where
  "load buf i = (if 0 \<le> i \<and> i < int (length buf) then Inr (buf ! nat i) else Inl OutOfBounds)"

definition store :: "char list \<Rightarrow> int \<Rightarrow> char \<Rightarrow> fault + char list" where
  "store buf i c =
     (if 0 \<le> i \<and> i < int (length buf) then Inr (buf[nat i := c]) else Inl OutOfBounds)"

definition NUL :: char where
  "NUL = CHR 0x00"

text \<open>The C string held by a buffer: the characters before the first NUL
  (what \<^verbatim>\<open>printf("%s")\<close> prints).\<close>

definition c_string :: "char list \<Rightarrow> string" where
  "c_string buf = takeWhile (\<lambda>c. c \<noteq> NUL) buf"

subsection \<open>get_random_char (lines 27-30)\<close>

text \<open>\<^verbatim>\<open>int len = strlen(charset); return charset[rand() % len];\<close>
  The remainder by zero is undefined in C.\<close>

definition get_random_char :: "string \<Rightarrow> rng \<Rightarrow> fault + (char \<times> rng)" where
  "get_random_char charset g =
     (let len = int (length (c_string charset));
          (r, g') = rand g
      in if len = 0 then Inl DivByZero
         else ebind (load charset (int r mod len)) (\<lambda>c. Inr (c, g')))"

subsection \<open>shuffle_string (lines 32-39)\<close>

text \<open>One pass of the loop body at index \<open>i\<close>:
  \<^verbatim>\<open>j = rand() % (i + 1); temp = str[i]; str[i] = str[j]; str[j] = temp;\<close>\<close>

definition shuffle_step :: "char list \<Rightarrow> int \<Rightarrow> rng \<Rightarrow> fault + (char list \<times> rng)" where
  "shuffle_step str i g =
     (let (r, g') = rand g
      in if i + 1 = 0 then Inl DivByZero
         else let j = int r mod (i + 1)
              in ebind (load str i) (\<lambda>temp.
                 ebind (load str j) (\<lambda>cj.
                 ebind (store str i cj) (\<lambda>str1.
                 ebind (store str1 j temp) (\<lambda>str2. Inr (str2, g'))))))"

text \<open>\<^verbatim>\<open>for (int i = length - 1; i > 0; i--)\<close>, from the current value of \<open>i\<close>.\<close>

function shuffle_loop :: "char list \<Rightarrow> int \<Rightarrow> rng \<Rightarrow> fault + (char list \<times> rng)" where
  "shuffle_loop str i g =
     (if i > 0 then
        (case shuffle_step str i g of
           Inl e \<Rightarrow> Inl e
         | Inr (str', g') \<Rightarrow> shuffle_loop str' (i - 1) g')
      else Inr (str, g))"
  by pat_completeness auto
termination
  by (relation "measure (\<lambda>(str, i, g). nat i)") auto

definition shuffle_string :: "char list \<Rightarrow> int \<Rightarrow> rng \<Rightarrow> fault + (char list \<times> rng)" where
  "shuffle_string str len g = shuffle_loop str (len - 1) g"

subsection \<open>generate_password (lines 41-84)\<close>

text \<open>\<^verbatim>\<open>password[i] = get_random_char(charset);\<close>\<close>

definition put_random_char ::
  "char list \<Rightarrow> int \<Rightarrow> string \<Rightarrow> rng \<Rightarrow> fault + (char list \<times> rng)" where
  "put_random_char password i charset g =
     ebind (get_random_char charset g) (\<lambda>(c, g').
     ebind (store password i c) (\<lambda>password'. Inr (password', g')))"

text \<open>The body of the fill loop (lines 55-76): the class draw, then the \<^verbatim>\<open>switch\<close>,
  which has no default case.\<close>

definition fill_step ::
  "char list \<Rightarrow> int \<Rightarrow> int \<Rightarrow> rng \<Rightarrow> fault + (char list \<times> rng)" where
  "fill_step password i include_special g =
     (let (r, g') = rand g;
          charset_choice = (if include_special \<noteq> 0 then int r mod 4 else int r mod 3)
      in if charset_choice = 0 then put_random_char password i UPPERCASE g'
         else if charset_choice = 1 then put_random_char password i LOWERCASE g'
         else if charset_choice = 2 then put_random_char password i NUMBERS g'
         else if charset_choice = 3 then put_random_char password i SPECIAL g'
         else Inr (password, g'))"

text \<open>\<^verbatim>\<open>for (int i = pos; i < length; i++)\<close>, from the current value of \<open>i\<close>.\<close>

function fill_loop ::
  "char list \<Rightarrow> int \<Rightarrow> int \<Rightarrow> int \<Rightarrow> rng \<Rightarrow> fault + (char list \<times> rng)" where
  "fill_loop password i len include_special g =
     (if i < len then
        (case fill_step password i include_special g of
           Inl e \<Rightarrow> Inl e
         | Inr (password', g') \<Rightarrow> fill_loop password' (i + 1) len include_special g')
      else Inr (password, g))"
  by pat_completeness auto
termination
  by (relation "measure (\<lambda>(password, i, len, include_special, g). nat (len - i))") auto

text \<open>Lines 42-51: the guaranteed characters; the result carries \<open>pos\<close>.\<close>

definition place_required ::
  "char list \<Rightarrow> int \<Rightarrow> int \<Rightarrow> rng \<Rightarrow> fault + (char list \<times> int \<times> rng)" where
  "place_required password len include_special g =
     ebind (put_random_char password 0 UPPERCASE g) (\<lambda>(p1, g1).
     ebind (put_random_char p1 1 LOWERCASE g1) (\<lambda>(p2, g2).
     ebind (put_random_char p2 2 NUMBERS g2) (\<lambda>(p3, g3).
       if include_special \<noteq> 0 \<and> len \<ge> 4
       then ebind (put_random_char p3 3 SPECIAL g3) (\<lambda>(p4, g4). Inr (p4, 4, g4))
       else Inr (p3, 3, g3))))"

definition generate_password ::
  "char list \<Rightarrow> int \<Rightarrow> int \<Rightarrow> rng \<Rightarrow> fault + (char list \<times> rng)" where
  "generate_password password len include_special g =
     ebind (place_required password len include_special g) (\<lambda>(p, pos, g1).
     ebind (fill_loop p pos len include_special g1) (\<lambda>(p', g2).
     ebind (shuffle_string p' len g2) (\<lambda>(p'', g3).
     ebind (store p'' len NUL) (\<lambda>p'''. Inr (p''', g3)))))"

declare shuffle_loop.simps [simp del] fill_loop.simps [simp del]

subsection \<open>print_usage (lines 14-25)\<close>

text \<open>The text written to standard output.\<close>

definition print_usage :: "string \<Rightarrow> string" where
  "print_usage program_name =
     ''Usage: '' @ program_name @ '' [OPTIONS]\<newline>'' @
     ''Options:\<newline>'' @
     ''  -l LENGTH    Password length (default: 12)\<newline>'' @
     ''  -s           Include special characters\<newline>'' @
     ''  -c COUNT     Number of passwords to generate (default: 1)\<newline>'' @
     ''  -h           Show this help message\<newline>'' @
     ''\<newline>Examples:\<newline>'' @
     ''  '' @ program_name @ ''                    # Generate 12-character password\<newline>'' @
     ''  '' @ program_name @
       '' -l 16 -s           # Generate 16-character password with special chars\<newline>'' @
     ''  '' @ program_name @
       '' -l 10 -c 5         # Generate 5 passwords of 10 characters each\<newline>''"

subsection \<open>main (lines 86-158)\<close>

text \<open>What \<^verbatim>\<open>printf("%d")\<close> writes for an \<^verbatim>\<open>int\<close>.\<close>

function dec_nat :: "nat \<Rightarrow> string" where
  "dec_nat n =
     (if n < 10 then [''0123456789'' ! n]
      else dec_nat (n div 10) @ [''0123456789'' ! (n mod 10)])"
  by pat_completeness auto
termination
  by (relation "measure id") auto

declare dec_nat.simps [simp del]

definition show_int :: "int \<Rightarrow> string" where
  "show_int i = (if i < 0 then CHR ''-'' # dec_nat (nat (- i)) else dec_nat (nat i))"

text \<open>The result of a run: the exit code and what was written to the two streams by
  the program itself (\<^verbatim>\<open>getopt\<close> writes its own diagnostics for an option it does not
  know; they are not part of the program's text).\<close>

record outcome =
  exit_code :: int
  stdout :: string
  stderr :: string

text \<open>
  The option loop (lines 93-127). \<^verbatim>\<open>getopt\<close> and \<^verbatim>\<open>atoi\<close> belong to the C library:
  the loop is given the successive results of \<^verbatim>\<open>getopt\<close> before it returns \<open>-1\<close>, each
  the option character with \<^verbatim>\<open>optarg\<close>, and the function \<open>atoi\<close> as a parameter.
  The state is \<open>(length, include_special, count)\<close>, the last written \<open>cnt\<close>; \<open>Inl\<close> is a \<^verbatim>\<open>return\<close> from
  inside the loop.
\<close>

fun parse_options ::
  "(string \<Rightarrow> int) \<Rightarrow> string \<Rightarrow> (char \<times> string) list \<Rightarrow> int \<times> int \<times> int
     \<Rightarrow> outcome + (int \<times> int \<times> int)" where
  "parse_options atoi argv0 [] (len, include_special, cnt) = Inr (len, include_special, cnt)"
| "parse_options atoi argv0 ((opt, optarg) # rest) (len, include_special, cnt) =
     (if opt = CHR ''l'' then
        (let len' = atoi optarg
         in if len' < 3 then
              Inl \<lparr>exit_code = 1, stdout = [],
                   stderr = ''Error: Password length must be at least 3\<newline>''\<rparr>
            else if len' > 128 then
              Inl \<lparr>exit_code = 1, stdout = [],
                   stderr = ''Error: Password length cannot exceed 128\<newline>''\<rparr>
            else parse_options atoi argv0 rest (len', include_special, cnt))
      else if opt = CHR ''s'' then parse_options atoi argv0 rest (len, 1, cnt)
      else if opt = CHR ''c'' then
        (let cnt' = atoi optarg
         in if cnt' < 1 then
              Inl \<lparr>exit_code = 1, stdout = [],
                   stderr = ''Error: Count must be at least 1\<newline>''\<rparr>
            else if cnt' > 100 then
              Inl \<lparr>exit_code = 1, stdout = [],
                   stderr = ''Error: Count cannot exceed 100\<newline>''\<rparr>
            else parse_options atoi argv0 rest (len, include_special, cnt'))
      else if opt = CHR ''h'' then
        Inl \<lparr>exit_code = 0, stdout = print_usage argv0, stderr = []\<rparr>
      else Inl \<lparr>exit_code = 1, stdout = print_usage argv0, stderr = []\<rparr>)"

text \<open>Line 150.\<close>

definition excluded_banner :: string where
  "excluded_banner = ''Excluded similar characters: 0, O, I, l, 1\<newline>\<newline>''"

text \<open>Lines 143-150.\<close>

definition header :: "int \<Rightarrow> int \<Rightarrow> int \<Rightarrow> string" where
  "header len include_special cnt =
     ''Generated password'' @ (if cnt > 1 then ''s'' else []) @ '':\<newline>'' @
     ''Length: '' @ show_int len @ '' characters\<newline>'' @
     ''Character sets: Uppercase, Lowercase, Numbers'' @
     (if include_special \<noteq> 0 then '', Special characters'' else []) @
     ''\<newline>'' @
     excluded_banner"

text \<open>\<^verbatim>\<open>for (int i = 0; i < cnt; i++)\<close> (lines 152-155), from the current value of \<open>i\<close>;
  \<open>out\<close> is standard output so far.\<close>

function generate_loop ::
  "char list \<Rightarrow> int \<Rightarrow> int \<Rightarrow> int \<Rightarrow> int \<Rightarrow> rng \<Rightarrow> string \<Rightarrow> fault + string" where
  "generate_loop password i cnt len include_special g out =
     (if i < cnt then
        (case generate_password password len include_special g of
           Inl e \<Rightarrow> Inl e
         | Inr (password', g') \<Rightarrow>
             generate_loop password' (i + 1) cnt len include_special g'
               (out @ show_int (i + 1) @ '': '' @ c_string password' @ ''\<newline>''))
      else Inr out)"
  by pat_completeness auto
termination
  by (relation "measure (\<lambda>(password, i, cnt, len, include_special, g, out). nat (cnt - i))")
     auto

declare generate_loop.simps [simp del]

text \<open>
  \<open>stack\<close> is the indeterminate initial content of \<^verbatim>\<open>char password[129]\<close>; \<open>g\<close> is the
  stream \<^verbatim>\<open>rand()\<close> yields after \<^verbatim>\<open>srand(tv.tv_sec ^ tv.tv_usec)\<close>.
\<close>

definition main ::
  "(string \<Rightarrow> int) \<Rightarrow> string \<Rightarrow> (char \<times> string) list \<Rightarrow> (nat \<Rightarrow> char) \<Rightarrow> rng
     \<Rightarrow> fault + outcome" where
  "main atoi argv0 opts stack g =
     (case parse_options atoi argv0 opts (12, 0, 1) of
        Inl early \<Rightarrow> Inr early
      | Inr (len, include_special, cnt) \<Rightarrow>
          if include_special \<noteq> 0 \<and> len < 4 then
            Inr \<lparr>exit_code = 1, stdout = [],
                 stderr = ''Error: Password length must be at least 4 when using special characters\<newline>''\<rparr>
          else
            (let password = map stack [0..<129]
             in case generate_loop password 0 cnt len include_special g
                       (header len include_special cnt) of
                  Inl e \<Rightarrow> Inl e
                | Inr out \<Rightarrow> Inr \<lparr>exit_code = 0, stdout = out, stderr = []\<rparr>))"

text \<open>A model of \<^verbatim>\<open>atoi\<close> of the C library, for running \<open>main\<close> on concrete arguments:
  blanks, an optional sign, then decimal digits up to the first other character. It is
  \<^verbatim>\<open>atoi\<close> for the arguments whose value fits an \<^verbatim>\<open>int\<close>; beyond that range the C
  function is undefined and the model returns the mathematical value.\<close>

definition digit_value :: "char \<Rightarrow> int option" where
  "digit_value c =
     (if c \<in> set ''0123456789'' then Some (int (of_char c) - 48) else None)"

fun atoi_digits :: "int \<Rightarrow> string \<Rightarrow> int" where
  "atoi_digits acc [] = acc"
| "atoi_digits acc (c # cs) =
     (case digit_value c of None \<Rightarrow> acc | Some d \<Rightarrow> atoi_digits (10 * acc + d) cs)"

definition libc_atoi :: "string \<Rightarrow> int" where
  "libc_atoi s =
     (case dropWhile (\<lambda>c. c \<in> set [CHR '' '', CHR 0x09, CHR 0x0A, CHR 0x0B, CHR 0x0C, CHR 0x0D]) s of
        [] \<Rightarrow> 0
      | c # r \<Rightarrow> if c = CHR ''-'' then - atoi_digits 0 r
                 else if c = CHR ''+'' then atoi_digits 0 r
                 else atoi_digits 0 (c # r))"

section \<open>Specification-side functions\<close>

text \<open>
  The functions of this section are not translations of source functions. They say, in
  closed form over the stream of draws, what the specification expects of each phase;
  the theorems below compare the embedded code with them.
\<close>

text \<open>The policy that \<open>main\<close> enforces before it calls the generator
  (lines 97, 101 and 130).\<close>

definition valid_policy :: "int \<Rightarrow> int \<Rightarrow> bool" where
  "valid_policy len include_special \<longleftrightarrow>
     3 \<le> len \<and> len \<le> 128 \<and> (include_special \<noteq> 0 \<longrightarrow> 4 \<le> len)"

text \<open>The character of a class selected by the draw \<open>r\<close>.\<close>

definition pick :: "string \<Rightarrow> nat \<Rightarrow> char" where
  "pick charset r = charset ! (r mod length charset)"

text \<open>The classes enabled by the flag, in the order of the \<^verbatim>\<open>switch\<close>.\<close>

definition enabled_classes :: "int \<Rightarrow> string list" where
  "enabled_classes include_special =
     [UPPERCASE, LOWERCASE, NUMBERS] @ (if include_special \<noteq> 0 then [SPECIAL] else [])"

text \<open>One fill slot: the class by the draw \<open>r1\<close> among the enabled classes, then the
  character by the draw \<open>r2\<close> within the class.\<close>

definition fill_char :: "int \<Rightarrow> nat \<Rightarrow> nat \<Rightarrow> char" where
  "fill_char include_special r1 r2 =
     pick (enabled_classes include_special ! (r1 mod length (enabled_classes include_special))) r2"

text \<open>\<open>m\<close> fill slots, each from the next two draws.\<close>

fun fill_chars :: "int \<Rightarrow> nat \<Rightarrow> rng \<Rightarrow> string" where
  "fill_chars include_special 0 g = []"
| "fill_chars include_special (Suc m) g =
     fill_char include_special (shd g) (shd (stl g)) # fill_chars include_special m (stl (stl g))"

text \<open>Exchanging the elements at \<open>i\<close> and \<open>j\<close>.\<close>

definition swap_at :: "char list \<Rightarrow> nat \<Rightarrow> nat \<Rightarrow> char list" where
  "swap_at s i j = (s[i := s ! j])[j := s ! i]"

text \<open>The Fisher-Yates exchanges from index \<open>m\<close> down to index 1: the pair \<open>(i, j)\<close> with
  \<open>j\<close> the next draw reduced modulo \<open>i + 1\<close>.\<close>

fun swap_trace :: "nat \<Rightarrow> rng \<Rightarrow> (nat \<times> nat) list" where
  "swap_trace 0 g = []"
| "swap_trace (Suc i) g = (Suc i, shd g mod (Suc i + 1)) # swap_trace i (stl g)"

definition apply_swaps :: "char list \<Rightarrow> (nat \<times> nat) list \<Rightarrow> char list" where
  "apply_swaps s tr = foldl (\<lambda>s (i, j). swap_at s i j) s tr"

text \<open>The guaranteed-inclusion prefix and its size.\<close>

definition num_required :: "nat \<Rightarrow> int \<Rightarrow> nat" where
  "num_required n include_special = (if include_special \<noteq> 0 \<and> n \<ge> 4 then 4 else 3)"

definition required_chars :: "nat \<Rightarrow> int \<Rightarrow> rng \<Rightarrow> string" where
  "required_chars n include_special g =
     [pick UPPERCASE (g !! 0), pick LOWERCASE (g !! 1), pick NUMBERS (g !! 2)] @
     (if include_special \<noteq> 0 \<and> n \<ge> 4 then [pick SPECIAL (g !! 3)] else [])"

text \<open>The \<open>n\<close> characters before the shuffle, the number of draws they use, and the
  password after the shuffle.\<close>

definition unshuffled :: "nat \<Rightarrow> int \<Rightarrow> rng \<Rightarrow> string" where
  "unshuffled n include_special g =
     required_chars n include_special g @
     fill_chars include_special (n - num_required n include_special)
       (sdrop (num_required n include_special) g)"

definition draws_before_shuffle :: "nat \<Rightarrow> int \<Rightarrow> nat" where
  "draws_before_shuffle n include_special =
     num_required n include_special + 2 * (n - num_required n include_special)"

definition password_of :: "nat \<Rightarrow> int \<Rightarrow> rng \<Rightarrow> string" where
  "password_of n include_special g =
     apply_swaps (unshuffled n include_special g)
       (swap_trace (n - 1) (sdrop (draws_before_shuffle n include_special) g))"

definition draws_per_password :: "nat \<Rightarrow> int \<Rightarrow> nat" where
  "draws_per_password n include_special = draws_before_shuffle n include_special + (n - 1)"

text \<open>The characters a password may contain.\<close>

definition allowed :: "int \<Rightarrow> char set" where
  "allowed include_special =
     set UPPERCASE \<union> set LOWERCASE \<union> set NUMBERS \<union>
     (if include_special \<noteq> 0 then set SPECIAL else {})"

text \<open>The passwords of \<open>c\<close> successive calls, and the lines printed for them, the first
  numbered \<open>i + 1\<close>.\<close>

fun passwords :: "nat \<Rightarrow> nat \<Rightarrow> int \<Rightarrow> rng \<Rightarrow> string list" where
  "passwords 0 n include_special g = []"
| "passwords (Suc c) n include_special g =
     password_of n include_special g #
     passwords c n include_special (sdrop (draws_per_password n include_special) g)"

fun password_lines :: "nat \<Rightarrow> string list \<Rightarrow> string" where
  "password_lines i [] = []"
| "password_lines i (pw # pws) =
     show_int (int i + 1) @ '': '' @ pw @ ''\<newline>'' @ password_lines (Suc i) pws"

text \<open>
  A valid invocation, in terms of the options \<^verbatim>\<open>getopt\<close> reports: every option is
  \<open>-l\<close> with a length in \<open>[3, 128]\<close>, \<open>-s\<close>, or \<open>-c\<close> with a count in \<open>[1, 100]\<close>. The
  effective length and count are the values of the last \<open>-l\<close> and the last \<open>-c\<close>, or the
  defaults 12 and 1 when the option is absent.
\<close>

definition valid_options :: "(string \<Rightarrow> int) \<Rightarrow> (char \<times> string) list \<Rightarrow> bool" where
  "valid_options atoi opts \<longleftrightarrow>
     (\<forall>(opt, optarg) \<in> set opts.
        opt = CHR ''l'' \<and> 3 \<le> atoi optarg \<and> atoi optarg \<le> 128 \<or>
        opt = CHR ''s'' \<or>
        opt = CHR ''c'' \<and> 1 \<le> atoi optarg \<and> atoi optarg \<le> 100)"

definition last_value :: "(string \<Rightarrow> int) \<Rightarrow> char \<Rightarrow> int \<Rightarrow> (char \<times> string) list \<Rightarrow> int" where
  "last_value atoi c d opts =
     (case filter (\<lambda>(opt, optarg). opt = c) opts of
        [] \<Rightarrow> d
      | x # xs \<Rightarrow> atoi (snd (last (x # xs))))"

definition effective_length :: "(string \<Rightarrow> int) \<Rightarrow> (char \<times> string) list \<Rightarrow> int" where
  "effective_length atoi opts = last_value atoi (CHR ''l'') 12 opts"

definition effective_count :: "(string \<Rightarrow> int) \<Rightarrow> (char \<times> string) list \<Rightarrow> int" where
  "effective_count atoi opts = last_value atoi (CHR ''c'') 1 opts"

definition special_set :: "(char \<times> string) list \<Rightarrow> bool" where
  "special_set opts \<longleftrightarrow> CHR ''s'' \<in> set (map fst opts)"

text \<open>The number a string of decimal digits denotes.\<close>

definition decimal_value :: "string \<Rightarrow> nat" where
  "decimal_value s = foldl (\<lambda>acc c. 10 * acc + (of_char c - 48)) 0 s"

section \<open>Basic facts\<close>

lemma ebind_Inr [simp]: "ebind (Inr x) f = f x"
  by (simp add: ebind_def)

lemma ebind_Inl [simp]: "ebind (Inl e) f = Inl e"
  by (simp add: ebind_def)

lemma charset_lengths [simp]:
  "length UPPERCASE = 24" "length LOWERCASE = 24" "length NUMBERS = 8" "length SPECIAL = 26"
  by (simp_all add: UPPERCASE_def LOWERCASE_def NUMBERS_def SPECIAL_def)

lemma NUL_notin_charsets [simp]:
  "NUL \<notin> set UPPERCASE" "NUL \<notin> set LOWERCASE" "NUL \<notin> set NUMBERS" "NUL \<notin> set SPECIAL"
  by (simp_all add: UPPERCASE_def LOWERCASE_def NUMBERS_def SPECIAL_def NUL_def)

lemma c_string_no_NUL: "NUL \<notin> set s \<Longrightarrow> c_string s = s"
  by (auto simp: c_string_def takeWhile_eq_all_conv)

lemma get_random_char_eq:
  assumes "NUL \<notin> set charset" "charset \<noteq> []"
  shows "get_random_char charset g = Inr (pick charset (shd g), stl g)"
proof -
  have "int (shd g) mod int (length charset) = int (shd g mod length charset)"
    by (simp add: zmod_int)
  moreover have "shd g mod length charset < length charset"
    using assms by simp
  ultimately show ?thesis
    using assms by (simp add: get_random_char_def c_string_no_NUL rand_def load_def pick_def)
qed

lemma put_random_char_eq:
  assumes "NUL \<notin> set charset" "charset \<noteq> []" "i < length p"
  shows "put_random_char p (int i) charset g = Inr (p[i := pick charset (shd g)], stl g)"
  using assms by (simp add: put_random_char_def get_random_char_eq store_def)

lemma charsets_nonempty [simp]:
  "UPPERCASE \<noteq> []" "LOWERCASE \<noteq> []" "NUMBERS \<noteq> []" "SPECIAL \<noteq> []"
  by (simp_all add: UPPERCASE_def LOWERCASE_def NUMBERS_def SPECIAL_def)

lemma fill_step_eq:
  assumes "i < length p"
  shows "fill_step p (int i) incl g =
           Inr (p[i := fill_char incl (shd g) (shd (stl g))], stl (stl g))"
proof (cases "incl = 0")
  case True
  have m: "int (shd g) mod 3 = int (shd g mod 3)" by (simp add: zmod_int)
  have "shd g mod 3 = 0 \<or> shd g mod 3 = 1 \<or> shd g mod 3 = 2" by arith
  then show ?thesis
    using assms True
    by (auto simp: fill_step_def rand_def m put_random_char_eq fill_char_def enabled_classes_def
       )
next
  case False
  have m: "int (shd g) mod 4 = int (shd g mod 4)" by (simp add: zmod_int)
  have "shd g mod 4 = 0 \<or> shd g mod 4 = 1 \<or> shd g mod 4 = 2 \<or> shd g mod 4 = 3" by arith
  then show ?thesis
    using assms False
    by (auto simp: fill_step_def rand_def m put_random_char_eq fill_char_def enabled_classes_def
       )
qed

lemma fill_loop_eq:
  "i + n \<le> length p \<Longrightarrow>
   fill_loop p (int i) (int (i + n)) incl g =
     Inr (take i p @ fill_chars incl n g @ drop (i + n) p, sdrop (2 * n) g)"
proof (induction n arbitrary: i p g)
  case 0
  show ?case by (subst fill_loop.simps) simp
next
  case (Suc n)
  let ?c = "fill_char incl (shd g) (shd (stl g))"
  let ?p = "p[i := ?c]"
  have i: "i < length p" using Suc.prems by simp
  have "Suc i + n \<le> length ?p" using Suc.prems by simp
  from Suc.IH [OF this]
  have rec: "fill_loop ?p (int (Suc i)) (int (Suc i + n)) incl (stl (stl g)) =
     Inr (take (Suc i) ?p @ fill_chars incl n (stl (stl g)) @ drop (Suc i + n) ?p,
          sdrop (2 * n) (stl (stl g)))" .
  have t: "take (Suc i) ?p = take i p @ [?c]"
    using i by (simp add: take_Suc_conv_app_nth)
  have d: "drop (Suc i + n) ?p = drop (Suc i + n) p"
    by simp
  have s1: "fill_loop p (int i) (int (Suc i + n)) incl g =
        fill_loop ?p (int (Suc i)) (int (Suc i + n)) incl (stl (stl g))"
    by (subst fill_loop.simps) (simp add: fill_step_eq [OF i] ac_simps)
  have a2: "i + Suc n = Suc i + n" by simp
  show ?case
    unfolding a2 s1 rec t d by simp
qed

lemma shuffle_step_eq:
  assumes "i < length s"
  shows "shuffle_step s (int i) g = Inr (swap_at s i (shd g mod (i + 1)), stl g)"
proof -
  have m: "int (shd g) mod (int i + 1) = int (shd g mod (i + 1))"
    by (simp add: zmod_int ac_simps)
  have "shd g mod (i + 1) < i + 1" by simp
  then have j: "shd g mod (i + 1) < length s"
    using assms by linarith
  have n: "int i + 1 \<noteq> 0" by linarith
  show ?thesis
    using assms j n
    by (simp add: shuffle_step_def rand_def m load_def store_def swap_at_def
             del: of_nat_mod of_nat_add)
qed

lemma length_swap_at [simp]: "length (swap_at s i j) = length s"
  by (simp add: swap_at_def)

lemma shuffle_loop_eq:
  "i < length s \<Longrightarrow>
   shuffle_loop s (int i) g = Inr (apply_swaps s (swap_trace i g), sdrop i g)"
proof (induction i arbitrary: s g)
  case 0
  show ?case by (subst shuffle_loop.simps) (simp add: apply_swaps_def)
next
  case (Suc i)
  let ?s' = "swap_at s (Suc i) (shd g mod (Suc i + 1))"
  have step: "shuffle_step s (int (Suc i)) g = Inr (?s', stl g)"
    using shuffle_step_eq [OF Suc.prems] .
  have "i < length ?s'" using Suc.prems by simp
  from Suc.IH [OF this]
  have rec: "shuffle_loop ?s' (int i) (stl g) =
               Inr (apply_swaps ?s' (swap_trace i (stl g)), sdrop i (stl g))" .
  have "shuffle_loop s (int (Suc i)) g = shuffle_loop ?s' (int (Suc i) - 1) (stl g)"
    by (subst shuffle_loop.simps) (simp add: step del: of_nat_Suc)
  also have "int (Suc i) - 1 = int i" by simp
  finally show ?case
    using rec by (simp add: apply_swaps_def)
qed

lemma length_required_chars [simp]:
  "length (required_chars n incl g) = num_required n incl"
  by (simp add: required_chars_def num_required_def)

lemma update3:
  assumes "Suc (Suc 0) < length p"
  shows "p[0 := a, Suc 0 := b, Suc (Suc 0) := c] = a # b # c # drop (Suc (Suc (Suc 0))) p"
proof -
  from assms obtain x y z r where "p = x # y # z # r"
    by (cases p; cases "tl p"; cases "tl (tl p)") auto
  then show ?thesis by simp
qed

lemma update4:
  assumes "Suc (Suc (Suc 0)) < length p"
  shows "p[0 := a, Suc 0 := b, Suc (Suc 0) := c, Suc (Suc (Suc 0)) := d] =
           a # b # c # d # drop (Suc (Suc (Suc (Suc 0)))) p"
proof -
  from assms obtain x y z w r where "p = x # y # z # w # r"
    by (cases p; cases "tl p"; cases "tl (tl p)"; cases "tl (tl (tl p))") auto
  then show ?thesis by simp
qed

lemma place_required_eq:
  assumes "n < length p" "3 \<le> length p"
  shows "place_required p (int n) incl g =
           Inr (required_chars n incl g @ drop (num_required n incl) p,
                int (num_required n incl), sdrop (num_required n incl) g)"
proof -
  have i: "0 < length p" "1 < length p" "2 < length p"
    using assms by auto
  have p0: "\<And>q cs h. NUL \<notin> set cs \<Longrightarrow> cs \<noteq> [] \<Longrightarrow> 0 < length q \<Longrightarrow>
     put_random_char q 0 cs h = Inr (q[0 := pick cs (shd h)], stl h)"
    using put_random_char_eq [where i = 0] by simp
  have p1: "\<And>q cs h. NUL \<notin> set cs \<Longrightarrow> cs \<noteq> [] \<Longrightarrow> 1 < length q \<Longrightarrow>
     put_random_char q 1 cs h = Inr (q[1 := pick cs (shd h)], stl h)"
    using put_random_char_eq [where i = 1] by simp
  have p2: "\<And>q cs h. NUL \<notin> set cs \<Longrightarrow> cs \<noteq> [] \<Longrightarrow> 2 < length q \<Longrightarrow>
     put_random_char q 2 cs h = Inr (q[2 := pick cs (shd h)], stl h)"
    using put_random_char_eq [where i = 2] by simp
  have p3: "\<And>q cs h. NUL \<notin> set cs \<Longrightarrow> cs \<noteq> [] \<Longrightarrow> 3 < length q \<Longrightarrow>
     put_random_char q 3 cs h = Inr (q[3 := pick cs (shd h)], stl h)"
    using put_random_char_eq [where i = 3] by simp
  show ?thesis
  proof (cases "incl \<noteq> 0 \<and> 4 \<le> n")
    case True
    then have 4: "4 \<le> length p" "3 < length p" using assms by simp_all
    show ?thesis
      using True i 4
      by (simp add: place_required_def p0 p1 p2 p3 update4 required_chars_def num_required_def
            eval_nat_numeral)
  next
    case False
    show ?thesis
      using False i assms(2)
      by (auto simp: place_required_def p0 p1 p2 update3 required_chars_def num_required_def
            eval_nat_numeral)
  qed
qed

lemma length_fill_chars [simp]: "length (fill_chars incl m g) = m"
  by (induction m arbitrary: g) simp_all

lemma num_required_le: "3 \<le> n \<Longrightarrow> num_required n incl \<le> n"
  by (simp add: num_required_def)

lemma length_unshuffled: "3 \<le> n \<Longrightarrow> length (unshuffled n incl g) = n"
  by (simp add: unshuffled_def num_required_le)

lemma swap_trace_bounds:
  "(i, j) \<in> set (swap_trace m g) \<Longrightarrow> 0 < i \<and> i \<le> m \<and> j \<le> i"
proof (induction m arbitrary: g)
  case 0
  then show ?case by simp
next
  case (Suc m)
  then show ?case by (fastforce simp: less_Suc_eq_le)
qed

lemma swap_at_append:
  "i < length u \<Longrightarrow> j < length u \<Longrightarrow> swap_at (u @ d) i j = swap_at u i j @ d"
  by (simp add: swap_at_def list_update_append1 nth_append)

lemma apply_swaps_Cons [simp]:
  "apply_swaps s ((i, j) # tr) = apply_swaps (swap_at s i j) tr"
  by (simp add: apply_swaps_def)

lemma apply_swaps_Nil [simp]: "apply_swaps s [] = s"
  by (simp add: apply_swaps_def)

lemma apply_swaps_append:
  "\<forall>(i, j) \<in> set tr. i < length u \<and> j < length u \<Longrightarrow>
   apply_swaps (u @ d) tr = apply_swaps u tr @ d"
proof (induction tr arbitrary: u)
  case Nil
  show ?case by simp
next
  case (Cons a tr)
  obtain i j where a: "a = (i, j)" by (cases a)
  have ij: "i < length u" "j < length u" using Cons.prems a by auto
  have "\<forall>(i', j') \<in> set tr. i' < length (swap_at u i j) \<and> j' < length (swap_at u i j)"
    using Cons.prems by auto
  from Cons.IH [OF this] show ?case
    by (simp add: a swap_at_append ij)
qed

lemma length_apply_swaps [simp]: "length (apply_swaps s tr) = length s"
  by (induction tr arbitrary: s) auto

lemma mset_swap_at:
  "i < length s \<Longrightarrow> j < length s \<Longrightarrow> mset (swap_at s i j) = mset s"
  unfolding swap_at_def by (metis mset_swap)

lemma mset_apply_swaps:
  "\<forall>(i, j) \<in> set tr. i < length s \<and> j < length s \<Longrightarrow> mset (apply_swaps s tr) = mset s"
proof (induction tr arbitrary: s)
  case Nil
  show ?case by simp
next
  case (Cons a tr)
  obtain i j where a: "a = (i, j)" by (cases a)
  have ij: "i < length s" "j < length s" using Cons.prems a by auto
  have "\<forall>(i', j') \<in> set tr. i' < length (swap_at s i j) \<and> j' < length (swap_at s i j)"
    using Cons.prems by auto
  from Cons.IH [OF this] show ?case
    by (simp add: a mset_swap_at ij)
qed

lemma swap_trace_in_range:
  "m < n \<Longrightarrow> \<forall>(i, j) \<in> set (swap_trace m g). i < n \<and> j < n"
  using swap_trace_bounds by fastforce

lemma fill_loop_done: "len \<le> i \<Longrightarrow> fill_loop p i len incl g = Inr (p, g)"
  by (subst fill_loop.simps) simp

lemma generate_password_eq:
  assumes n: "3 \<le> n" and room: "n < length p"
  shows "generate_password p (int n) incl g =
           Inr (password_of n incl g @ NUL # drop (Suc n) p,
                sdrop (draws_before_shuffle n incl + (n - 1)) g)"
proof -
  let ?k = "num_required n incl"
  let ?req = "required_chars n incl g"
  let ?p1 = "?req @ drop ?k p"
  let ?g1 = "sdrop ?k g"
  let ?u = "unshuffled n incl g"
  let ?g2 = "sdrop (draws_before_shuffle n incl) g"
  have k: "?k \<le> n" using n by (rule num_required_le)
  have place: "place_required p (int n) incl g = Inr (?p1, int ?k, ?g1)"
    using room n by (intro place_required_eq) simp_all
  have len1: "length ?p1 = length p" using k room by simp
  have "?k + (n - ?k) \<le> length ?p1" using len1 k room by simp
  from fill_loop_eq [OF this, of incl ?g1]
  have "fill_loop ?p1 (int ?k) (int n) incl ?g1 =
          Inr (take ?k ?p1 @ fill_chars incl (n - ?k) ?g1 @ drop n ?p1, sdrop (2 * (n - ?k)) ?g1)"
    using k by simp
  moreover have "take ?k ?p1 = ?req" by simp
  moreover have "drop n ?p1 = drop n p" using k by simp
  moreover have "sdrop (2 * (n - ?k)) ?g1 = ?g2"
    by (simp add: draws_before_shuffle_def sdrop_add)
  ultimately have fill: "fill_loop ?p1 (int ?k) (int n) incl ?g1 = Inr (?u @ drop n p, ?g2)"
    by (simp add: unshuffled_def)
  have lu: "length ?u = n" using n by (rule length_unshuffled)
  have "n - 1 < length (?u @ drop n p)" using lu room n by simp
  from shuffle_loop_eq [OF this, of ?g2]
  have "shuffle_string (?u @ drop n p) (int n) ?g2 =
          Inr (apply_swaps (?u @ drop n p) (swap_trace (n - 1) ?g2), sdrop (n - 1) ?g2)"
    using n by (simp add: shuffle_string_def of_nat_diff)
  moreover have "apply_swaps (?u @ drop n p) (swap_trace (n - 1) ?g2) =
                 password_of n incl g @ drop n p"
  proof -
    have "n - 1 < n" using n by simp
    from swap_trace_in_range [OF this, of ?g2]
    have "\<forall>(i, j) \<in> set (swap_trace (n - 1) ?g2). i < length ?u \<and> j < length ?u"
      unfolding lu .
    then show ?thesis
      unfolding password_of_def by (rule apply_swaps_append)
  qed
  ultimately have shuffle: "shuffle_string (?u @ drop n p) (int n) ?g2 =
          Inr (password_of n incl g @ drop n p,
               sdrop (draws_before_shuffle n incl + (n - 1)) g)"
    by (simp add: sdrop_add)
  have lp: "length (password_of n incl g) = n"
    by (simp add: password_of_def lu)
  have "drop n p = p ! n # drop (Suc n) p"
    using room by (simp add: Cons_nth_drop_Suc)
  then have nul: "store (password_of n incl g @ drop n p) (int n) NUL =
               Inr (password_of n incl g @ NUL # drop (Suc n) p)"
    using room lp by (simp add: store_def list_update_append)
  show ?thesis
    by (simp add: generate_password_def place fill shuffle nul)
qed

lemma c_string_terminated: "NUL \<notin> set s \<Longrightarrow> c_string (s @ NUL # r) = s"
proof -
  assume "NUL \<notin> set s"
  then have "\<And>x. x \<in> set s \<Longrightarrow> x \<noteq> NUL" by auto
  then have "takeWhile (\<lambda>c. c \<noteq> NUL) (s @ NUL # r) = s @ takeWhile (\<lambda>c. c \<noteq> NUL) (NUL # r)"
    by (rule takeWhile_append2)
  then show ?thesis by (simp add: c_string_def)
qed

section \<open>Properties of generate_password\<close>

lemma pick_in_set: "charset \<noteq> [] \<Longrightarrow> pick charset r \<in> set charset"
  by (simp add: pick_def)

lemma fill_char_allowed: "fill_char incl r1 r2 \<in> allowed incl"
proof (cases "incl = 0")
  case True
  have "r1 mod 3 = 0 \<or> r1 mod 3 = 1 \<or> r1 mod 3 = 2" by arith
  then show ?thesis
    using True by (auto simp: fill_char_def enabled_classes_def allowed_def pick_in_set)
next
  case False
  have "r1 mod 4 = 0 \<or> r1 mod 4 = 1 \<or> r1 mod 4 = 2 \<or> r1 mod 4 = 3" by arith
  then show ?thesis
    using False by (auto simp: fill_char_def enabled_classes_def allowed_def pick_in_set)
qed

lemma set_fill_chars: "set (fill_chars incl m g) \<subseteq> allowed incl"
  by (induction m arbitrary: g) (simp_all add: fill_char_allowed)

lemma set_required_chars: "set (required_chars n incl g) \<subseteq> allowed incl"
  by (auto simp: required_chars_def allowed_def pick_in_set)

lemma set_unshuffled: "set (unshuffled n incl g) \<subseteq> allowed incl"
  by (simp add: unshuffled_def set_fill_chars set_required_chars)

lemma NUL_not_allowed: "NUL \<notin> allowed incl"
  by (simp add: allowed_def)

lemma mset_password_of:
  assumes "3 \<le> n"
  shows "mset (password_of n incl g) = mset (unshuffled n incl g)"
proof -
  have "n - 1 < length (unshuffled n incl g)"
    using assms by (simp add: length_unshuffled)
  then show ?thesis
    unfolding password_of_def by (intro mset_apply_swaps swap_trace_in_range)
qed

lemma set_password_of: "3 \<le> n \<Longrightarrow> set (password_of n incl g) = set (unshuffled n incl g)"
  using mset_password_of by (metis set_mset_mset)

lemma length_password_of: "3 \<le> n \<Longrightarrow> length (password_of n incl g) = n"
  by (simp add: password_of_def length_unshuffled)

lemma NUL_notin_password_of: "3 \<le> n \<Longrightarrow> NUL \<notin> set (password_of n incl g)"
  using set_password_of set_unshuffled NUL_not_allowed by blast

lemma generate_password_ok:
  assumes "3 \<le> len" "len < int (length p)"
  shows "\<exists>p'. generate_password p len incl g =
                 Inr (p', sdrop (draws_per_password (nat len) incl) g) \<and>
               c_string p' = password_of (nat len) incl g \<and>
               take (nat len) p' = password_of (nat len) incl g \<and>
               length p' = length p \<and> p' ! nat len = NUL"
proof -
  let ?n = "nat len"
  have n: "3 \<le> ?n" "?n < length p" "int ?n = len" using assms by simp_all
  let ?p' = "password_of ?n incl g @ NUL # drop (Suc ?n) p"
  have "generate_password p (int ?n) incl g = Inr (?p', sdrop (draws_per_password ?n incl) g)"
    unfolding draws_per_password_def using n(1,2) by (rule generate_password_eq)
  moreover have "c_string ?p' = password_of ?n incl g"
    using n(1) by (intro c_string_terminated NUL_notin_password_of)
  moreover have "take ?n ?p' = password_of ?n incl g"
    using n(1) by (simp add: length_password_of)
  moreover have "length ?p' = length p"
    using n by (simp add: length_password_of)
  moreover have "?p' ! ?n = NUL"
    using n(1) by (simp add: nth_append length_password_of)
  ultimately show ?thesis
    using n(3) by auto
qed

lemma required_in_unshuffled:
  "pick UPPERCASE (g !! 0) \<in> set (unshuffled n incl g)"
  "pick LOWERCASE (g !! 1) \<in> set (unshuffled n incl g)"
  "pick NUMBERS (g !! 2) \<in> set (unshuffled n incl g)"
  "incl \<noteq> 0 \<Longrightarrow> 4 \<le> n \<Longrightarrow> pick SPECIAL (g !! 3) \<in> set (unshuffled n incl g)"
  by (simp_all add: unshuffled_def required_chars_def)

text \<open>
  Claim C1. For every valid policy (length in [3,128], and length at least 4 when special
  characters are included) and every buffer with room for the password and its
  terminator, \<open>generate_password\<close> returns, and the string it leaves in the buffer
  contains at least one character of \<open>UPPERCASE\<close>, one of \<open>LOWERCASE\<close>, one of
  \<open>NUMBERS\<close> and, when special characters are included, one of \<open>SPECIAL\<close>.
\<close>

theorem generate_password_has_every_class:
  assumes "valid_policy len include_special" and "len < int (length password)"
  shows "\<exists>password' g'.
           generate_password password len include_special g = Inr (password', g') \<and>
           set (c_string password') \<inter> set UPPERCASE \<noteq> {} \<and>
           set (c_string password') \<inter> set LOWERCASE \<noteq> {} \<and>
           set (c_string password') \<inter> set NUMBERS \<noteq> {} \<and>
           (include_special \<noteq> 0 \<longrightarrow> set (c_string password') \<inter> set SPECIAL \<noteq> {})"
proof -
  let ?n = "nat len"
  have n: "3 \<le> len" "3 \<le> ?n" "include_special \<noteq> 0 \<Longrightarrow> 4 \<le> ?n"
    using assms(1) by (auto simp: valid_policy_def)
  from generate_password_ok [OF n(1) assms(2)]
  obtain p' where p': "generate_password password len include_special g =
        Inr (p', sdrop (draws_per_password ?n include_special) g)"
      "c_string p' = password_of ?n include_special g"
    by blast
  have s: "set (c_string p') = set (unshuffled ?n include_special g)"
    using p'(2) n(2) by (simp add: set_password_of)
  have "pick UPPERCASE (g !! 0) \<in> set (c_string p') \<inter> set UPPERCASE"
    using required_in_unshuffled(1) [of g ?n include_special] by (simp add: s pick_in_set)
  moreover have "pick LOWERCASE (g !! 1) \<in> set (c_string p') \<inter> set LOWERCASE"
    using required_in_unshuffled(2) [of g ?n include_special] by (simp add: s pick_in_set)
  moreover have "pick NUMBERS (g !! 2) \<in> set (c_string p') \<inter> set NUMBERS"
    using required_in_unshuffled(3) [of g ?n include_special] by (simp add: s pick_in_set)
  moreover have "include_special \<noteq> 0 \<Longrightarrow>
      pick SPECIAL (g !! 3) \<in> set (c_string p') \<inter> set SPECIAL"
    using n(3) required_in_unshuffled(4) [of include_special ?n g] by (simp add: s pick_in_set)
  ultimately show ?thesis
    using p'(1) by blast
qed

theorem generate_password_has_every_class_witness:
  "valid_policy 16 1 \<and> 16 < int (length (replicate 129 NUL)) \<and>
   (\<exists>password' g'.
      generate_password (replicate 129 NUL) 16 1 (sconst 0) = Inr (password', g') \<and>
      set (c_string password') \<inter> set UPPERCASE \<noteq> {} \<and>
      set (c_string password') \<inter> set LOWERCASE \<noteq> {} \<and>
      set (c_string password') \<inter> set NUMBERS \<noteq> {} \<and>
      ((1::int) \<noteq> 0 \<longrightarrow> set (c_string password') \<inter> set SPECIAL \<noteq> {}))"
proof -
  have v: "valid_policy 16 1" by (simp add: valid_policy_def)
  have r: "16 < int (length (replicate 129 NUL))" by simp
  show ?thesis
    using v r generate_password_has_every_class [OF v r, of "sconst 0"] by simp
qed

lemma allowed_subset:
  "allowed incl \<subseteq> set UPPERCASE \<union> set LOWERCASE \<union> set NUMBERS \<union> set SPECIAL"
  by (auto simp: allowed_def)

lemma password_of_allowed: "3 \<le> n \<Longrightarrow> set (password_of n incl g) \<subseteq> allowed incl"
  using set_password_of set_unshuffled by blast

text \<open>
  Claim C2. For every valid policy, \<open>generate_password\<close> leaves a string of exactly
  \<open>length\<close> characters: the positions \<open>0..length-1\<close> of the buffer hold characters
  other than NUL and position \<open>length\<close> holds the terminating NUL.
\<close>

theorem generate_password_exact_length:
  assumes "valid_policy len include_special" and "len < int (length password)"
  shows "\<exists>password' g'.
           generate_password password len include_special g = Inr (password', g') \<and>
           length (c_string password') = nat len \<and>
           (\<forall>k < nat len. password' ! k \<noteq> NUL) \<and>
           password' ! nat len = NUL"
proof -
  let ?n = "nat len"
  have n: "3 \<le> len" "3 \<le> ?n" "?n < length password"
    using assms by (auto simp: valid_policy_def)
  from generate_password_ok [OF n(1) assms(2)]
  obtain p' where p': "generate_password password len include_special g =
        Inr (p', sdrop (draws_per_password ?n include_special) g)"
      "c_string p' = password_of ?n include_special g"
      "take ?n p' = password_of ?n include_special g"
      "length p' = length password" "p' ! ?n = NUL"
    by blast
  have "length (c_string p') = ?n"
    using p'(2) n(2) by (simp add: length_password_of)
  moreover have "p' ! k \<noteq> NUL" if "k < ?n" for k
  proof -
    have "p' ! k = take ?n p' ! k" using that by simp
    moreover have "k < length (take ?n p')" using that p'(4) n(3) by simp
    ultimately have "p' ! k \<in> set (password_of ?n include_special g)"
      unfolding p'(3) [symmetric] by (metis nth_mem)
    then show ?thesis using NUL_notin_password_of [OF n(2)] by metis
  qed
  ultimately show ?thesis
    using p'(1,5) by blast
qed

theorem generate_password_exact_length_witness:
  "valid_policy 3 0 \<and> 3 < int (length (replicate 129 NUL)) \<and>
   (\<exists>password' g'.
      generate_password (replicate 129 NUL) 3 0 (sconst 7) = Inr (password', g') \<and>
      length (c_string password') = nat 3 \<and>
      (\<forall>k < nat 3. password' ! k \<noteq> NUL) \<and>
      password' ! nat 3 = NUL)"
proof -
  have v: "valid_policy 3 0" by (simp add: valid_policy_def)
  have r: "3 < int (length (replicate 129 NUL))" by simp
  show ?thesis
    using v r generate_password_exact_length [OF v r, of "sconst 7"] by simp
qed

lemma charsets_exclude_similar:
  "(set UPPERCASE \<union> set LOWERCASE \<union> set NUMBERS \<union> set SPECIAL) \<inter> set ''0OIl1'' = {}"
  by (simp add: UPPERCASE_def LOWERCASE_def NUMBERS_def SPECIAL_def)

text \<open>
  Claim C3. For every valid policy, every character of the generated password comes
  from one of the four character sets, none of the four sets contains any of
  \<open>0 O I l 1\<close>, and so the password contains none of them.
\<close>

theorem generate_password_excludes_similar:
  assumes "valid_policy len include_special" and "len < int (length password)"
  shows "\<exists>password' g'.
           generate_password password len include_special g = Inr (password', g') \<and>
           set (c_string password') \<subseteq>
             set UPPERCASE \<union> set LOWERCASE \<union> set NUMBERS \<union> set SPECIAL \<and>
           (set UPPERCASE \<union> set LOWERCASE \<union> set NUMBERS \<union> set SPECIAL) \<inter> set ''0OIl1'' = {} \<and>
           set (c_string password') \<inter> set ''0OIl1'' = {}"
proof -
  let ?n = "nat len"
  have n: "3 \<le> len" "3 \<le> ?n"
    using assms by (auto simp: valid_policy_def)
  from generate_password_ok [OF n(1) assms(2)]
  obtain p' where p': "generate_password password len include_special g =
        Inr (p', sdrop (draws_per_password ?n include_special) g)"
      "c_string p' = password_of ?n include_special g"
    by blast
  have sub: "set (c_string p') \<subseteq>
      set UPPERCASE \<union> set LOWERCASE \<union> set NUMBERS \<union> set SPECIAL"
    unfolding p'(2) using password_of_allowed [OF n(2)] allowed_subset by blast
  then have "set (c_string p') \<inter> set ''0OIl1'' = {}"
    using charsets_exclude_similar by blast
  then show ?thesis
    using p'(1) sub charsets_exclude_similar by blast
qed

theorem generate_password_excludes_similar_witness:
  "valid_policy 128 1 \<and> 128 < int (length (replicate 129 NUL)) \<and>
   (\<exists>password' g'.
      generate_password (replicate 129 NUL) 128 1 (siterate Suc 0) = Inr (password', g') \<and>
      set (c_string password') \<subseteq>
        set UPPERCASE \<union> set LOWERCASE \<union> set NUMBERS \<union> set SPECIAL \<and>
      (set UPPERCASE \<union> set LOWERCASE \<union> set NUMBERS \<union> set SPECIAL) \<inter> set ''0OIl1'' = {} \<and>
      set (c_string password') \<inter> set ''0OIl1'' = {})"
proof -
  have v: "valid_policy 128 1" by (simp add: valid_policy_def)
  have r: "128 < int (length (replicate 129 NUL))" by simp
  show ?thesis
    using v r generate_password_excludes_similar [OF v r, of "siterate Suc 0"] by blast
qed

lemma o_not_in_charsets:
  "CHR ''o'' \<notin> set UPPERCASE \<union> set LOWERCASE \<union> set NUMBERS \<union> set SPECIAL"
  by (simp add: UPPERCASE_def LOWERCASE_def NUMBERS_def SPECIAL_def)

text \<open>
  Claim C10. For every valid policy the generated password never contains the lowercase
  letter \<open>o\<close>: \<open>LOWERCASE\<close> omits it, besides the five documented characters, while the
  banner printed by \<open>main\<close> lists only \<open>0, O, I, l, 1\<close> and does not mention \<open>o\<close>.
\<close>

theorem generate_password_never_lowercase_o:
  assumes "valid_policy len include_special" and "len < int (length password)"
  shows "\<exists>password' g'.
           generate_password password len include_special g = Inr (password', g') \<and>
           CHR ''o'' \<notin> set (c_string password') \<and>
           CHR ''o'' \<notin> set LOWERCASE \<and>
           set ''0OIl1'' \<inter> set LOWERCASE = {} \<and>
           excluded_banner = ''Excluded similar characters: 0, O, I, l, 1\<newline>\<newline>'' \<and>
           CHR ''o'' \<notin> set excluded_banner"
proof -
  let ?n = "nat len"
  have n: "3 \<le> len" "3 \<le> ?n"
    using assms by (auto simp: valid_policy_def)
  from generate_password_ok [OF n(1) assms(2)]
  obtain p' where p': "generate_password password len include_special g =
        Inr (p', sdrop (draws_per_password ?n include_special) g)"
      "c_string p' = password_of ?n include_special g"
    by blast
  have "set (c_string p') \<subseteq>
      set UPPERCASE \<union> set LOWERCASE \<union> set NUMBERS \<union> set SPECIAL"
    unfolding p'(2) using password_of_allowed [OF n(2)] allowed_subset by blast
  then have "CHR ''o'' \<notin> set (c_string p')"
    using o_not_in_charsets by blast
  moreover have "CHR ''o'' \<notin> set LOWERCASE" "set ''0OIl1'' \<inter> set LOWERCASE = {}"
    by (simp_all add: LOWERCASE_def)
  moreover have "excluded_banner = ''Excluded similar characters: 0, O, I, l, 1\<newline>\<newline>''"
      "CHR ''o'' \<notin> set excluded_banner"
    by (simp_all add: excluded_banner_def)
  ultimately show ?thesis
    using p'(1) by blast
qed

theorem generate_password_never_lowercase_o_witness:
  "valid_policy 12 0 \<and> 12 < int (length (replicate 129 NUL)) \<and>
   (\<exists>password' g'.
      generate_password (replicate 129 NUL) 12 0 (sconst 14) = Inr (password', g') \<and>
      CHR ''o'' \<notin> set (c_string password') \<and>
      CHR ''o'' \<notin> set LOWERCASE \<and>
      set ''0OIl1'' \<inter> set LOWERCASE = {} \<and>
      excluded_banner = ''Excluded similar characters: 0, O, I, l, 1\<newline>\<newline>'' \<and>
      CHR ''o'' \<notin> set excluded_banner)"
proof -
  have v: "valid_policy 12 0" by (simp add: valid_policy_def)
  have r: "12 < int (length (replicate 129 NUL))" by simp
  show ?thesis
    using v r generate_password_never_lowercase_o [OF v r, of "sconst 14"] by blast
qed

section \<open>Draws reduced modulo a bound\<close>

text \<open>
  Every random choice of the program is \<^verbatim>\<open>rand() % m\<close>. Among the draw values below
  \<open>M\<close>, the index \<open>j < m\<close> is selected by \<open>M div m\<close> of them, and by one more when
  \<open>j < M mod m\<close>: every index is selected, and all equally often when \<open>m\<close> divides \<open>M\<close>.
\<close>

lemma draw_mod_count:
  assumes "j < m"
  shows "card {r. r < M \<and> r mod m = j} = M div m + (if j < M mod m then 1 else 0)"
proof (induction M)
  case 0
  show ?case by simp
next
  case (Suc M)
  have fin: "finite {r. r < M \<and> r mod m = j}" by simp
  have split: "{r. r < Suc M \<and> r mod m = j} =
        (if M mod m = j then insert M {r. r < M \<and> r mod m = j} else {r. r < M \<and> r mod m = j})"
    by (auto simp: less_Suc_eq)
  have notin: "M \<notin> {r. r < M \<and> r mod m = j}" by simp
  have c: "card {r. r < Suc M \<and> r mod m = j} =
        card {r. r < M \<and> r mod m = j} + (if M mod m = j then 1 else 0)"
    unfolding split using fin notin by simp
  have m: "0 < m" using assms by simp
  show ?case
  proof (cases "Suc (M mod m) = m")
    case True
    then have "Suc M mod m = 0" "Suc M div m = Suc (M div m)"
      by (simp_all add: mod_Suc div_Suc)
    then show ?thesis
      using c Suc.IH assms True by auto
  next
    case False
    then have "Suc M mod m = Suc (M mod m)" "Suc M div m = M div m"
      by (simp_all add: mod_Suc div_Suc)
    then show ?thesis
      using c Suc.IH assms False by auto
  qed
qed

lemma pick_index_count:
  "j < m \<Longrightarrow> card {r. r < q * m \<and> r mod m = j} = q"
  using draw_mod_count [of j m "q * m"] by simp

section \<open>Properties of shuffle_string\<close>


lemma length_swap_trace [simp]: "length (swap_trace m g) = m"
  by (induction m arbitrary: g) simp_all

lemma apply_swaps_prefix:
  assumes "\<forall>(i, j) \<in> set tr. i < n \<and> j < n" and "n \<le> length s"
  shows "apply_swaps s tr = apply_swaps (take n s) tr @ drop n s"
proof -
  have "\<forall>(i, j) \<in> set tr. i < length (take n s) \<and> j < length (take n s)"
    using assms by simp
  from apply_swaps_append [OF this, of "drop n s"] show ?thesis by simp
qed



lemma shuffle_example:
  "shuffle_string ''Ab2!'' 4 (siterate Suc 5) = Inr (''2!Ab'', siterate Suc 8)"
  by (simp add: shuffle_string_def shuffle_loop.simps shuffle_step_def rand_def load_def store_def)

section \<open>Properties of the fill phase\<close>








lemma fill_example:
  "fill_loop ''A2b??xyz'' 3 5 0 (siterate Suc 4) = Inr (''A2bfHxyz'', siterate Suc 8)"
  by (simp add: fill_loop.simps fill_step_def put_random_char_def get_random_char_def
        rand_def load_def store_def c_string_def NUL_def
        UPPERCASE_def LOWERCASE_def NUMBERS_def SPECIAL_def)



section \<open>Boundary lengths\<close>

lemma unshuffled_3: "unshuffled 3 0 g = required_chars 3 0 g"
  by (simp add: unshuffled_def num_required_def)

lemma unshuffled_4: "incl \<noteq> 0 \<Longrightarrow> unshuffled 4 incl g = required_chars 4 incl g"
  by (simp add: unshuffled_def num_required_def)

text \<open>
  Claim C6. At the boundary lengths the fill phase contributes nothing. With length 3 and
  no special characters the password is a permutation of the three guaranteed characters,
  one of \<open>UPPERCASE\<close>, one of \<open>LOWERCASE\<close> and one of \<open>NUMBERS\<close>, and the call uses
  five draws (three characters, two exchanges). With length 4 and special characters it
  is a permutation of the four guaranteed characters and the call uses seven draws. In
  both cases the fill loop starts at \<open>pos = length\<close> and returns the buffer and the
  random source as they are.
\<close>

theorem boundary_lengths_no_fill:
  "(3 < length password \<longrightarrow>
      (\<exists>password'.
         generate_password password 3 0 g = Inr (password', sdrop 5 g) \<and>
         mset (c_string password') =
           {#pick UPPERCASE (g !! 0), pick LOWERCASE (g !! 1), pick NUMBERS (g !! 2)#} \<and>
         pick UPPERCASE (g !! 0) \<in> set UPPERCASE \<and>
         pick LOWERCASE (g !! 1) \<in> set LOWERCASE \<and>
         pick NUMBERS (g !! 2) \<in> set NUMBERS \<and>
         fill_loop q 3 3 0 h = Inr (q, h))) \<and>
   (include_special \<noteq> 0 \<and> 4 < length password \<longrightarrow>
      (\<exists>password'.
         generate_password password 4 include_special g = Inr (password', sdrop 7 g) \<and>
         mset (c_string password') =
           {#pick UPPERCASE (g !! 0), pick LOWERCASE (g !! 1), pick NUMBERS (g !! 2),
             pick SPECIAL (g !! 3)#} \<and>
         pick UPPERCASE (g !! 0) \<in> set UPPERCASE \<and>
         pick LOWERCASE (g !! 1) \<in> set LOWERCASE \<and>
         pick NUMBERS (g !! 2) \<in> set NUMBERS \<and>
         pick SPECIAL (g !! 3) \<in> set SPECIAL \<and>
         fill_loop q 4 4 include_special h = Inr (q, h)))"
proof (intro conjI impI)
  assume room: "3 < length password"
  have a: "(3::int) \<le> 3" "3 < int (length password)" using room by simp_all
  from generate_password_ok [OF a, of 0 g]
  obtain p' where p': "generate_password password 3 0 g = Inr (p', sdrop (draws_per_password 3 0) g)"
      "c_string p' = password_of 3 0 g"
    by auto
  have d: "draws_per_password 3 0 = 5"
    by (simp add: draws_per_password_def draws_before_shuffle_def num_required_def)
  have "mset (c_string p') = mset (required_chars 3 0 g)"
    unfolding p'(2) by (simp add: mset_password_of unshuffled_3)
  then have m: "mset (c_string p') =
      {#pick UPPERCASE (g !! 0), pick LOWERCASE (g !! 1), pick NUMBERS (g !! 2)#}"
    by (simp add: required_chars_def)
  have f: "fill_loop q 3 3 0 h = Inr (q, h)" by (rule fill_loop_done) simp
  show "\<exists>password'.
         generate_password password 3 0 g = Inr (password', sdrop 5 g) \<and>
         mset (c_string password') =
           {#pick UPPERCASE (g !! 0), pick LOWERCASE (g !! 1), pick NUMBERS (g !! 2)#} \<and>
         pick UPPERCASE (g !! 0) \<in> set UPPERCASE \<and>
         pick LOWERCASE (g !! 1) \<in> set LOWERCASE \<and>
         pick NUMBERS (g !! 2) \<in> set NUMBERS \<and>
         fill_loop q 3 3 0 h = Inr (q, h)"
    using p'(1) m f unfolding d by (intro exI [of _ p']) (simp add: pick_in_set)
next
  assume "include_special \<noteq> 0 \<and> 4 < length password"
  then have sp: "include_special \<noteq> 0" and room: "4 < length password" by simp_all
  have a: "(3::int) \<le> 4" "4 < int (length password)" using room by simp_all
  from generate_password_ok [OF a, of include_special g]
  obtain p' where p': "generate_password password 4 include_special g =
        Inr (p', sdrop (draws_per_password 4 include_special) g)"
      "c_string p' = password_of 4 include_special g"
    by auto
  have d: "draws_per_password 4 include_special = 7"
    using sp by (simp add: draws_per_password_def draws_before_shuffle_def num_required_def)
  have "mset (c_string p') = mset (required_chars 4 include_special g)"
    unfolding p'(2) using sp by (simp add: mset_password_of unshuffled_4)
  then have m: "mset (c_string p') =
      {#pick UPPERCASE (g !! 0), pick LOWERCASE (g !! 1), pick NUMBERS (g !! 2),
        pick SPECIAL (g !! 3)#}"
    using sp by (simp add: required_chars_def)
  have f: "fill_loop q 4 4 include_special h = Inr (q, h)" by (rule fill_loop_done) simp
  show "\<exists>password'.
         generate_password password 4 include_special g = Inr (password', sdrop 7 g) \<and>
         mset (c_string password') =
           {#pick UPPERCASE (g !! 0), pick LOWERCASE (g !! 1), pick NUMBERS (g !! 2),
             pick SPECIAL (g !! 3)#} \<and>
         pick UPPERCASE (g !! 0) \<in> set UPPERCASE \<and>
         pick LOWERCASE (g !! 1) \<in> set LOWERCASE \<and>
         pick NUMBERS (g !! 2) \<in> set NUMBERS \<and>
         pick SPECIAL (g !! 3) \<in> set SPECIAL \<and>
         fill_loop q 4 4 include_special h = Inr (q, h)"
    using p'(1) m f unfolding d by (intro exI [of _ p']) (simp add: pick_in_set)
qed

theorem boundary_lengths_no_fill_witness:
  "3 < length (replicate 129 NUL) \<and> (1::int) \<noteq> 0 \<and> 4 < length (replicate 129 NUL) \<and>
   (\<exists>password'.
      generate_password (replicate 129 NUL) 3 0 (sconst 0) = Inr (password', sdrop 5 (sconst 0)) \<and>
      mset (c_string password') = {#CHR ''A'', CHR ''a'', CHR ''2''#}) \<and>
   (\<exists>password'.
      generate_password (replicate 129 NUL) 4 1 (sconst 0) = Inr (password', sdrop 7 (sconst 0)) \<and>
      mset (c_string password') = {#CHR ''A'', CHR ''a'', CHR ''2'', CHR ''!''#})"
proof -
  have a: "3 < length (replicate 129 NUL)" by simp
  have b: "(1::int) \<noteq> 0 \<and> 4 < length (replicate 129 NUL)" by simp
  have p: "pick UPPERCASE 0 = CHR ''A''" "pick LOWERCASE 0 = CHR ''a''"
      "pick NUMBERS 0 = CHR ''2''" "pick SPECIAL 0 = CHR ''!''"
    by (simp_all add: pick_def UPPERCASE_def LOWERCASE_def NUMBERS_def SPECIAL_def)
  have t: "3 < length (replicate 129 NUL) \<longrightarrow>
      (\<exists>password'.
         generate_password (replicate 129 NUL) 3 0 (sconst 0) = Inr (password', sdrop 5 (sconst 0)) \<and>
         mset (c_string password') = {#CHR ''A'', CHR ''a'', CHR ''2''#})"
    using boundary_lengths_no_fill [of "replicate 129 NUL" "sconst 0" "[]" "sconst 0" 1]
    by (simp add: p) blast
  have f: "(1::int) \<noteq> 0 \<and> 4 < length (replicate 129 NUL) \<longrightarrow>
      (\<exists>password'.
         generate_password (replicate 129 NUL) 4 1 (sconst 0) = Inr (password', sdrop 7 (sconst 0)) \<and>
         mset (c_string password') = {#CHR ''A'', CHR ''a'', CHR ''2'', CHR ''!''#})"
    using boundary_lengths_no_fill [of "replicate 129 NUL" "sconst 0" "[]" "sconst 0" 1]
    by (simp add: p) blast
  show ?thesis
    using a b t f by blast
qed

section \<open>Invalid policies\<close>

lemma shuffle_loop_done: "i \<le> 0 \<Longrightarrow> shuffle_loop s i g = Inr (s, g)"
  by (subst shuffle_loop.simps) simp

lemma shuffle_string_eq:
  assumes "n \<le> length s"
  shows "shuffle_string s (int n) g = Inr (apply_swaps s (swap_trace (n - 1) g), sdrop (n - 1) g)"
proof (cases "n = 0")
  case True
  then show ?thesis by (simp add: shuffle_string_def shuffle_loop_done)
next
  case False
  then have "n - 1 < length s" using assms by simp
  from shuffle_loop_eq [OF this, of g] show ?thesis
    using False by (simp add: shuffle_string_def of_nat_diff)
qed

lemma generate_password_short:
  assumes "n < 3" and "3 \<le> length p"
  shows "generate_password p (int n) incl g =
           Inr (apply_swaps (take n (required_chars n incl g)) (swap_trace (n - 1) (sdrop 3 g)) @
                  NUL # drop (Suc n) (required_chars n incl g @ drop 3 p),
                sdrop (3 + (n - 1)) g)"
proof -
  let ?req = "required_chars n incl g"
  let ?p1 = "?req @ drop 3 p"
  let ?tr = "swap_trace (n - 1) (sdrop 3 g)"
  have k: "num_required n incl = 3" using assms(1) by (simp add: num_required_def)
  have lr: "length ?req = 3" using k by simp
  have "n < length p" using assms by simp
  from place_required_eq [OF this assms(2), of incl g]
  have place: "place_required p (int n) incl g = Inr (?p1, 3, sdrop 3 g)"
    by (simp add: k)
  have fill: "fill_loop ?p1 3 (int n) incl (sdrop 3 g) = Inr (?p1, sdrop 3 g)"
    using assms(1) by (intro fill_loop_done) simp
  have l1: "n \<le> length ?p1" using assms lr by simp
  have shuffle: "shuffle_string ?p1 (int n) (sdrop 3 g) =
                   Inr (apply_swaps ?p1 ?tr, sdrop (3 + (n - 1)) g)"
    using shuffle_string_eq [OF l1, of "sdrop 3 g"] by (simp add: sdrop_add)
  have inr: "\<forall>(i, j) \<in> set ?tr. i < n \<and> j < n"
  proof (cases "n = 0")
    case True
    then show ?thesis by simp
  next
    case False
    then have "n - 1 < n" by simp
    then show ?thesis by (rule swap_trace_in_range)
  qed
  have tk: "take n ?p1 = take n ?req" using assms(1) lr by simp
  have split: "apply_swaps ?p1 ?tr = apply_swaps (take n ?req) ?tr @ drop n ?p1"
    using apply_swaps_prefix [OF inr l1] unfolding tk .
  have la: "length (apply_swaps (take n ?req) ?tr) = n"
    using assms(1) lr by simp
  have "n < length ?p1" using assms lr by simp
  then have "drop n ?p1 = ?p1 ! n # drop (Suc n) ?p1"
    by (simp only: Cons_nth_drop_Suc)
  then have nul: "store (apply_swaps ?p1 ?tr) (int n) NUL =
      Inr (apply_swaps (take n ?req) ?tr @ NUL # drop (Suc n) ?p1)"
    unfolding split using la assms lr
    by (simp add: store_def list_update_append del: append_assoc)
  show ?thesis
    by (simp only: generate_password_def place fill shuffle nul ebind_Inr prod.case)
qed

lemma required_chars_basic:
  "n < 4 \<Longrightarrow> set (required_chars n incl g) \<subseteq> set UPPERCASE \<union> set LOWERCASE \<union> set NUMBERS"
  by (auto simp: required_chars_def pick_in_set)

text \<open>
  Claim C5 expects \<open>generate_password\<close> to raise a fatal configuration error when the
  policy is invalid. The function has no such check: the only test of its arguments is
  the guard \<^verbatim>\<open>include_special && length >= 4\<close> of line 49, which skips the special
  character instead of failing, and the policy is validated by \<open>main\<close> alone before the
  call. What the code does, for an invalid policy whose length still fits the 129-byte
  buffer of \<open>main\<close> (length in \<open>[0, 2]\<close>, or length 3 with special characters): it
  returns normally and leaves a string of exactly \<open>length\<close> characters, all of them from
  \<open>UPPERCASE\<close>, \<open>LOWERCASE\<close> and \<open>NUMBERS\<close>.
\<close>

theorem generate_password_unchecked:
  assumes "\<not> valid_policy len include_special"
    and "0 \<le> len" and "len \<le> 128" and "length password = 129"
  shows "\<exists>password' g'.
           generate_password password len include_special g = Inr (password', g') \<and>
           length (c_string password') = nat len \<and>
           set (c_string password') \<subseteq> set UPPERCASE \<union> set LOWERCASE \<union> set NUMBERS"
proof (cases "len < 3")
  case True
  let ?n = "nat len"
  let ?req = "required_chars ?n include_special g"
  let ?tr = "swap_trace (?n - 1) (sdrop 3 g)"
  let ?pw = "apply_swaps (take ?n ?req) ?tr"
  have n: "?n < 3" "int ?n = len" using True assms(2) by simp_all
  have room: "3 \<le> length password" using assms(4) by simp
  from generate_password_short [OF n(1) room, of include_special g]
  have run: "generate_password password len include_special g =
      Inr (?pw @ NUL # drop (Suc ?n) (?req @ drop 3 password), sdrop (3 + (?n - 1)) g)"
    by (simp only: n(2))
  have lr: "length ?req = 3" using n(1) by (simp add: num_required_def)
  have inr: "\<forall>(i, j) \<in> set ?tr. i < length (take ?n ?req) \<and> j < length (take ?n ?req)"
  proof (cases "?n = 0")
    case True
    then show ?thesis by simp
  next
    case False
    then have "?n - 1 < ?n" by simp
    from swap_trace_in_range [OF this, of "sdrop 3 g"] show ?thesis
      using n(1) lr by simp
  qed
  have "mset ?pw = mset (take ?n ?req)"
    using inr by (rule mset_apply_swaps)
  then have "set ?pw = set (take ?n ?req)"
    by (metis set_mset_mset)
  then have sub: "set ?pw \<subseteq> set UPPERCASE \<union> set LOWERCASE \<union> set NUMBERS"
    using required_chars_basic [of ?n include_special g] n(1) set_take_subset [of ?n ?req]
    by auto
  then have "NUL \<notin> set ?pw" by auto
  then have cs: "c_string (?pw @ NUL # drop (Suc ?n) (?req @ drop 3 password)) = ?pw"
    by (rule c_string_terminated)
  have "length ?pw = ?n" using n(1) lr by simp
  then show ?thesis
    using run cs sub by auto
next
  case False
  then have l3: "len = 3" and sp: "include_special \<noteq> 0"
    using assms(1,3) by (auto simp: valid_policy_def)
  have a: "(3::int) \<le> 3" "3 < int (length password)" using assms(4) by simp_all
  from generate_password_ok [OF a, of include_special g]
  obtain p' where p': "generate_password password 3 include_special g =
        Inr (p', sdrop (draws_per_password 3 include_special) g)"
      "c_string p' = password_of 3 include_special g"
    by auto
  have u: "unshuffled 3 include_special g = required_chars 3 include_special g"
    by (simp add: unshuffled_def num_required_def)
  have "set (c_string p') = set (required_chars 3 include_special g)"
    unfolding p'(2) by (simp add: set_password_of u)
  then have "set (c_string p') \<subseteq> set UPPERCASE \<union> set LOWERCASE \<union> set NUMBERS"
    using required_chars_basic [of 3 include_special g] by simp
  moreover have "length (c_string p') = 3"
    unfolding p'(2) by (simp add: length_password_of)
  ultimately show ?thesis
    using p'(1) l3 by auto
qed

theorem generate_password_unchecked_witness:
  "\<not> valid_policy 3 1 \<and> (0::int) \<le> 3 \<and> (3::int) \<le> 128 \<and> length (replicate 129 NUL) = 129 \<and>
   (\<exists>password' g'.
      generate_password (replicate 129 NUL) 3 1 (sconst 0) = Inr (password', g') \<and>
      length (c_string password') = nat 3 \<and>
      set (c_string password') \<subseteq> set UPPERCASE \<union> set LOWERCASE \<union> set NUMBERS)"
proof -
  have v: "\<not> valid_policy 3 1" by (simp add: valid_policy_def)
  have b: "(0::int) \<le> 3" "(3::int) \<le> 128" by simp_all
  have r: "length (replicate 129 NUL) = 129" by simp
  show ?thesis
    using v b r generate_password_unchecked [OF v b r, of "sconst 0"] by blast
qed

text \<open>
  The claim as stated fails: with length 2, no special characters, a zeroed buffer and a
  random source that always returns 0, the policy is invalid and the call returns the
  password \<open>aA\<close>.
\<close>

theorem generate_password_no_assertion_counterexample:
  "\<not> valid_policy 2 0 \<and>
   generate_password (replicate 129 NUL) 2 0 (sconst 0) =
     Inr (''aA'' @ replicate 127 NUL, sconst 0)"
proof -
  have r: "replicate 129 NUL = NUL # NUL # NUL # replicate 126 NUL"
    by (simp add: numeral_eq_Suc)
  have t: "''aA'' @ replicate 127 NUL = CHR ''a'' # CHR ''A'' # NUL # replicate 126 NUL"
    by (simp add: numeral_eq_Suc)
  have "(2::nat) < 3" "3 \<le> length (replicate 129 NUL)" by simp_all
  from generate_password_short [OF this, of 0 "sconst 0"]
  have "generate_password (replicate 129 NUL) 2 0 (sconst 0) =
          Inr (CHR ''a'' # CHR ''A'' # NUL # replicate 126 NUL, sconst 0)"
    unfolding r
    by (simp add: required_chars_def pick_def UPPERCASE_def LOWERCASE_def NUMBERS_def
          swap_at_def numeral_2_eq_2)
  then show ?thesis
    unfolding t by (simp add: valid_policy_def)
qed

section \<open>Properties of main\<close>

lemma parse_options_ranges:
  "parse_options atoi argv0 opts st = Inr (len, incl, cnt) \<Longrightarrow>
   3 \<le> fst st \<and> fst st \<le> 128 \<and> 1 \<le> snd (snd st) \<and> snd (snd st) \<le> 100 \<Longrightarrow>
   3 \<le> len \<and> len \<le> 128 \<and> 1 \<le> cnt \<and> cnt \<le> 100"
proof (induction atoi argv0 opts st rule: parse_options.induct)
  case (1 atoi argv0 len0 incl0 cnt0)
  then show ?case by simp
next
  case (2 atoi argv0 opt optarg rest len0 incl0 cnt0)
  show ?case
  proof (cases "opt = CHR ''l''")
    case True
    with "2.prems" have ok: "\<not> atoi optarg < 3" "\<not> atoi optarg > 128"
      by (auto simp: Let_def split: if_splits)
    with True "2.prems" have
      "parse_options atoi argv0 rest (atoi optarg, incl0, cnt0) = Inr (len, incl, cnt)"
      by (simp add: Let_def)
    with "2.IH"(1) [OF True refl ok] "2.prems"(2) ok show ?thesis by simp
  next
    case l: False
    show ?thesis
    proof (cases "opt = CHR ''s''")
      case True
      with l "2.prems" have "parse_options atoi argv0 rest (len0, 1, cnt0) = Inr (len, incl, cnt)"
        by simp
      with "2.IH"(2) [OF l True] "2.prems"(2) show ?thesis by simp
    next
      case s: False
      show ?thesis
      proof (cases "opt = CHR ''c''")
        case True
        with l s "2.prems" have ok: "\<not> atoi optarg < 1" "\<not> atoi optarg > 100"
          by (auto simp: Let_def split: if_splits)
        with True l s "2.prems" have
          "parse_options atoi argv0 rest (len0, incl0, atoi optarg) = Inr (len, incl, cnt)"
          by (simp add: Let_def)
        with "2.IH"(3) [OF l s True refl ok] "2.prems"(2) ok show ?thesis by simp
      next
        case False
        with l s "2.prems"(1) show ?thesis by (simp split: if_splits)
      qed
    qed
  qed
qed

lemma length_passwords [simp]: "length (passwords c n incl g) = c"
  by (induction c arbitrary: g) simp_all

lemma passwords_members:
  "pw \<in> set (passwords c n incl g) \<Longrightarrow> \<exists>g'. pw = password_of n incl g'"
  by (induction c arbitrary: g) auto

lemma newline_not_allowed: "CHR ''\<newline>'' \<notin> allowed incl"
  by (simp add: allowed_def UPPERCASE_def LOWERCASE_def NUMBERS_def SPECIAL_def)

lemma generate_loop_eq:
  assumes "3 \<le> n" and "n < length password"
  shows "generate_loop password (int i) (int (i + c)) (int n) incl g out =
           Inr (out @ password_lines i (passwords c n incl g))"
  using assms(2)
proof (induction c arbitrary: password i g out)
  case 0
  show ?case by (subst generate_loop.simps) simp
next
  case (Suc c)
  have a: "3 \<le> int n" "int n < int (length password)"
    using assms(1) Suc.prems by simp_all
  from generate_password_ok [OF a, of incl g]
  obtain p' where p': "generate_password password (int n) incl g =
        Inr (p', sdrop (draws_per_password n incl) g)"
      "c_string p' = password_of n incl g" "length p' = length password"
    by auto
  let ?out = "out @ show_int (int i + 1) @ '': '' @ password_of n incl g @ ''\<newline>''"
  have "n < length p'" using p'(3) Suc.prems by simp
  from Suc.IH [OF this, of "Suc i" "sdrop (draws_per_password n incl) g" ?out]
  have rec: "generate_loop p' (int (Suc i)) (int (Suc i + c)) (int n) incl
               (sdrop (draws_per_password n incl) g) ?out =
             Inr (?out @ password_lines (Suc i)
                    (passwords c n incl (sdrop (draws_per_password n incl) g)))" .
  have step: "generate_loop password (int i) (int (Suc i + c)) (int n) incl g out =
              generate_loop p' (int (Suc i)) (int (Suc i + c)) (int n) incl
                (sdrop (draws_per_password n incl) g) ?out"
    by (subst generate_loop.simps) (simp add: p' ac_simps)
  have e: "i + Suc c = Suc i + c" by simp
  show ?case
    unfolding e step rec by simp
qed

lemma password_lines_concat:
  "password_lines i pws =
     concat (map (\<lambda>k. show_int (int (i + k) + 1) @ '': '' @ pws ! k @ ''\<newline>'') [0..<length pws])"
proof (induction pws arbitrary: i)
  case Nil
  show ?case by simp
next
  case (Cons pw pws)
  have "[0..<length (pw # pws)] = 0 # map Suc [0..<length pws]"
    by (simp add: upt_conv_Cons map_Suc_upt del: upt_Suc)
  then show ?case
    by (simp add: Cons.IH comp_def del: upt_Suc)
qed




lemma header_plural:
  "prefix ''Generated passwords:'' (header len incl cnt) \<longleftrightarrow> 1 < cnt"
  "prefix ''Generated password:'' (header len incl cnt) \<longleftrightarrow> \<not> 1 < cnt"
  by (simp_all add: header_def)

lemma main_run_of_settings:
  assumes "parse_options atoi argv0 opts (12, 0, 1) = Inr (len, include_special, cnt)"
    and "\<not> (include_special \<noteq> 0 \<and> len < 4)"
  shows "3 \<le> len \<and> len \<le> 128 \<and> 1 \<le> cnt \<and> cnt \<le> 100 \<and>
         (\<exists>pws.
            main atoi argv0 opts stack g =
              Inr \<lparr>exit_code = 0,
                   stdout = header len include_special cnt @
                     concat (map (\<lambda>k. show_int (int k + 1) @ '': '' @ pws ! k @ ''\<newline>'')
                               [0..<nat cnt]),
                   stderr = []\<rparr> \<and>
            length pws = nat cnt \<and>
            (\<forall>pw \<in> set pws. length pw = nat len \<and> CHR ''\<newline>'' \<notin> set pw)) \<and>
         (prefix ''Generated passwords:'' (header len include_special cnt) \<longleftrightarrow> 1 < cnt) \<and>
         (prefix ''Generated password:'' (header len include_special cnt) \<longleftrightarrow> \<not> 1 < cnt)"
proof -
  let ?n = "nat len" and ?c = "nat cnt"
  let ?pws = "passwords ?c ?n include_special g"
  let ?buf = "map stack [0..<129]"
  have rng: "3 \<le> len \<and> len \<le> 128 \<and> 1 \<le> cnt \<and> cnt \<le> 100"
    using parse_options_ranges [OF assms(1)] by simp
  then have n: "3 \<le> ?n" "?n < length ?buf" "int ?n = len" "int (0 + ?c) = cnt"
    by auto
  from generate_loop_eq [OF n(1,2), of 0 ?c include_special g "header len include_special cnt"]
  have loop: "generate_loop ?buf 0 cnt len include_special g (header len include_special cnt) =
                Inr (header len include_special cnt @ password_lines 0 ?pws)"
    unfolding n(3,4) by simp
  have lines: "password_lines 0 ?pws =
      concat (map (\<lambda>k. show_int (int k + 1) @ '': '' @ ?pws ! k @ ''\<newline>'') [0..<?c])"
    using password_lines_concat [of 0 ?pws] by simp
  have run: "main atoi argv0 opts stack g =
      Inr \<lparr>exit_code = 0,
           stdout = header len include_special cnt @
             concat (map (\<lambda>k. show_int (int k + 1) @ '': '' @ ?pws ! k @ ''\<newline>'') [0..<?c]),
           stderr = []\<rparr>"
    using assms by (simp add: main_def loop lines del: upt_Suc)
  have each: "length pw = ?n \<and> CHR ''\<newline>'' \<notin> set pw" if "pw \<in> set ?pws" for pw
  proof -
    from passwords_members [OF that] obtain g' where pw: "pw = password_of ?n include_special g'"
      by blast
    have "set pw \<subseteq> allowed include_special"
      unfolding pw using n(1) by (rule password_of_allowed)
    then show ?thesis
      using newline_not_allowed [of include_special] length_password_of [OF n(1)] pw by auto
  qed
  have "length ?pws = ?c" by simp
  with run each have
    "\<exists>pws.
       main atoi argv0 opts stack g =
         Inr \<lparr>exit_code = 0,
              stdout = header len include_special cnt @
                concat (map (\<lambda>k. show_int (int k + 1) @ '': '' @ pws ! k @ ''\<newline>'')
                          [0..<nat cnt]),
              stderr = []\<rparr> \<and>
       length pws = nat cnt \<and>
       (\<forall>pw \<in> set pws. length pw = nat len \<and> CHR ''\<newline>'' \<notin> set pw)"
    by blast
  then show ?thesis
    using rng header_plural [of len include_special cnt] by blast
qed

lemma last_value_Cons:
  "last_value atoi c d ((opt, optarg) # rest) =
     last_value atoi c (if opt = c then atoi optarg else d) rest"
  by (auto simp: last_value_def split: list.splits)

lemma last_value_Nil [simp]: "last_value atoi c d [] = d"
  by (simp add: last_value_def)

lemma valid_options_Cons:
  "valid_options atoi ((opt, optarg) # rest) \<longleftrightarrow>
     (opt = CHR ''l'' \<and> 3 \<le> atoi optarg \<and> atoi optarg \<le> 128 \<or>
      opt = CHR ''s'' \<or>
      opt = CHR ''c'' \<and> 1 \<le> atoi optarg \<and> atoi optarg \<le> 100) \<and>
     valid_options atoi rest"
  by (simp add: valid_options_def)

lemma parse_options_valid:
  "valid_options atoi opts \<Longrightarrow>
   parse_options atoi argv0 opts (len, incl, cnt) =
     Inr (last_value atoi (CHR ''l'') len opts,
          (if special_set opts then 1 else incl),
          last_value atoi (CHR ''c'') cnt opts)"
proof (induction opts arbitrary: len incl cnt)
  case Nil
  show ?case by (simp add: special_set_def)
next
  case (Cons a opts)
  obtain opt optarg where a: "a = (opt, optarg)" by (cases a)
  from Cons.prems have v: "valid_options atoi opts"
    and h: "opt = CHR ''l'' \<and> 3 \<le> atoi optarg \<and> atoi optarg \<le> 128 \<or>
            opt = CHR ''s'' \<or>
            opt = CHR ''c'' \<and> 1 \<le> atoi optarg \<and> atoi optarg \<le> 100"
    by (simp_all add: a valid_options_Cons)
  note IH = Cons.IH [OF v]
  from h consider (l) "opt = CHR ''l''" "3 \<le> atoi optarg" "atoi optarg \<le> 128"
    | (s) "opt = CHR ''s''"
    | (c) "opt = CHR ''c''" "1 \<le> atoi optarg" "atoi optarg \<le> 100"
    by blast
  then show ?case
  proof cases
    case l
    then show ?thesis
      by (simp add: a IH last_value_Cons special_set_def Let_def)
  next
    case s
    then show ?thesis
      by (simp add: a IH last_value_Cons special_set_def)
  next
    case c
    then show ?thesis
      by (simp add: a IH last_value_Cons special_set_def Let_def)
  qed
qed

lemma last_value_range:
  "lo \<le> d \<Longrightarrow> d \<le> hi \<Longrightarrow>
   \<forall>(opt, optarg) \<in> set opts. opt = c \<longrightarrow> lo \<le> atoi optarg \<and> atoi optarg \<le> hi \<Longrightarrow>
   lo \<le> last_value atoi c d opts \<and> last_value atoi c d opts \<le> hi"
proof (induction opts arbitrary: d)
  case Nil
  then show ?case by simp
next
  case (Cons a opts)
  obtain opt optarg where a: "a = (opt, optarg)" by (cases a)
  show ?case
    unfolding a last_value_Cons
    using Cons.prems by (intro Cons.IH) (auto simp: a)
qed

lemma effective_ranges:
  assumes "valid_options atoi opts"
  shows "3 \<le> effective_length atoi opts \<and> effective_length atoi opts \<le> 128 \<and>
         1 \<le> effective_count atoi opts \<and> effective_count atoi opts \<le> 100"
proof -
  have "\<forall>(opt, optarg) \<in> set opts. opt = CHR ''l'' \<longrightarrow> 3 \<le> atoi optarg \<and> atoi optarg \<le> 128"
    using assms by (auto simp: valid_options_def)
  from last_value_range [OF _ _ this, of 12]
  have l: "3 \<le> effective_length atoi opts \<and> effective_length atoi opts \<le> 128"
    by (simp add: effective_length_def)
  have "\<forall>(opt, optarg) \<in> set opts. opt = CHR ''c'' \<longrightarrow> 1 \<le> atoi optarg \<and> atoi optarg \<le> 100"
    using assms by (auto simp: valid_options_def)
  from last_value_range [OF _ _ this, of 1]
  have "1 \<le> effective_count atoi opts \<and> effective_count atoi opts \<le> 100"
    by (simp add: effective_count_def)
  with l show ?thesis by simp
qed

lemma all_below_10: "(\<forall>d < (10::nat). P d) \<longleftrightarrow> list_all P [0..<10]"
  by (auto simp: list_all_iff)

lemma digit_char: "d < 10 \<Longrightarrow> of_char (''0123456789'' ! d) = 48 + d"
proof -
  have "list_all (\<lambda>d. of_char (''0123456789'' ! d) = 48 + d) [0..<10]"
    by (simp add: upt_conv_Cons)
  then show "d < 10 \<Longrightarrow> of_char (''0123456789'' ! d) = 48 + d"
    unfolding all_below_10 [symmetric] by blast
qed

lemma first_digit: "0 < n \<Longrightarrow> n < 10 \<Longrightarrow> ''0123456789'' ! n \<noteq> CHR ''0''"
proof -
  have "list_all (\<lambda>d. 0 < d \<longrightarrow> ''0123456789'' ! d \<noteq> CHR ''0'') [0..<10]"
    by (simp add: upt_conv_Cons)
  then show "0 < n \<Longrightarrow> n < 10 \<Longrightarrow> ''0123456789'' ! n \<noteq> CHR ''0''"
    unfolding all_below_10 [symmetric] by blast
qed

lemma digit_in_set: "d < 10 \<Longrightarrow> ''0123456789'' ! d \<in> set ''0123456789''"
  by (rule nth_mem) simp

lemma decimal_value_snoc:
  "decimal_value (s @ [c]) = 10 * decimal_value s + (of_char c - 48)"
  by (simp add: decimal_value_def)

lemma dec_nat_nonempty: "dec_nat n \<noteq> []"
  by (subst dec_nat.simps) simp

lemma dec_nat_digits: "set (dec_nat n) \<subseteq> set ''0123456789''"
proof (induction n rule: dec_nat.induct)
  case (1 n)
  show ?case
  proof (cases "n < 10")
    case True
    then show ?thesis
      using digit_in_set [of n] by (subst dec_nat.simps) simp
  next
    case False
    have "n mod 10 < 10" by simp
    then show ?thesis
      using False "1.IH" digit_in_set [of "n mod 10"] by (subst dec_nat.simps) simp
  qed
qed

lemma dec_nat_value: "decimal_value (dec_nat n) = n"
proof (induction n rule: dec_nat.induct)
  case (1 n)
  show ?case
  proof (cases "n < 10")
    case True
    then show ?thesis
      using digit_char [of n] by (subst dec_nat.simps) (simp add: decimal_value_def)
  next
    case False
    have "n mod 10 < 10" by simp
    then show ?thesis
      using False "1.IH" digit_char [of "n mod 10"]
      by (subst dec_nat.simps) (simp add: decimal_value_snoc)
  qed
qed

lemma dec_nat_no_leading_zero: "0 < n \<Longrightarrow> hd (dec_nat n) \<noteq> CHR ''0''"
proof (induction n rule: dec_nat.induct)
  case (1 n)
  show ?case
  proof (cases "n < 10")
    case True
    then show ?thesis
      using first_digit [OF "1.prems"] by (subst dec_nat.simps) simp
  next
    case False
    then have "0 < n div 10" by simp
    with False "1.IH" have "hd (dec_nat (n div 10)) \<noteq> CHR ''0''" by simp
    then show ?thesis
      using False dec_nat_nonempty [of "n div 10"] by (subst dec_nat.simps) simp
  qed
qed

lemma show_int_decimal:
  assumes "0 < i"
  shows "show_int i \<noteq> [] \<and> set (show_int i) \<subseteq> set ''0123456789'' \<and>
         hd (show_int i) \<noteq> CHR ''0'' \<and> int (decimal_value (show_int i)) = i"
proof -
  have s: "show_int i = dec_nat (nat i)" using assms by (simp add: show_int_def)
  have "0 < nat i" using assms by simp
  then show ?thesis
    unfolding s
    using dec_nat_nonempty dec_nat_digits dec_nat_no_leading_zero dec_nat_value assms
    by simp
qed

lemma parse_options_complete:
  "parse_options atoi argv0 opts st = Inr r \<Longrightarrow> valid_options atoi opts"
proof (induction atoi argv0 opts st rule: parse_options.induct)
  case (1 atoi argv0 len incl cnt)
  show ?case by (simp add: valid_options_def)
next
  case (2 atoi argv0 opt optarg rest len incl cnt)
  show ?case
  proof (cases "opt = CHR ''l''")
    case True
    with "2.prems" have ok: "\<not> atoi optarg < 3" "\<not> atoi optarg > 128"
      by (auto simp: Let_def split: if_splits)
    with True "2.prems" have "parse_options atoi argv0 rest (atoi optarg, incl, cnt) = Inr r"
      by (simp add: Let_def)
    with "2.IH"(1) [OF True refl ok] True ok show ?thesis
      by (simp add: valid_options_Cons)
  next
    case l: False
    show ?thesis
    proof (cases "opt = CHR ''s''")
      case True
      with l "2.prems" have "parse_options atoi argv0 rest (len, 1, cnt) = Inr r" by simp
      with "2.IH"(2) [OF l True] True show ?thesis
        by (simp add: valid_options_Cons)
    next
      case s: False
      show ?thesis
      proof (cases "opt = CHR ''c''")
        case True
        with l s "2.prems" have ok: "\<not> atoi optarg < 1" "\<not> atoi optarg > 100"
          by (auto simp: Let_def split: if_splits)
        with True l s "2.prems" have "parse_options atoi argv0 rest (len, incl, atoi optarg) = Inr r"
          by (simp add: Let_def)
        with "2.IH"(3) [OF l s True refl ok] True ok show ?thesis
          by (simp add: valid_options_Cons)
      next
        case False
        with l s "2.prems" show ?thesis by (simp split: if_splits)
      qed
    qed
  qed
qed

text \<open>
  Claim C9. For every valid invocation (every option is \<open>-l\<close> with a length in
  \<open>[3, 128]\<close>, \<open>-s\<close>, or \<open>-c\<close> with a count in \<open>[1, 100]\<close>, and the length is at least 4
  when \<open>-s\<close> is given), with \<open>L\<close> the effective length and \<open>C\<close> the effective count:
  \<open>L\<close> is in \<open>[3, 128]\<close>, \<open>C\<close> is in \<open>[1, 100]\<close>, and \<open>main\<close> exits with code 0, writes
  nothing to standard error and writes the header followed by exactly \<open>C\<close> lines, the
  \<open>k\<close>-th being the number \<open>k\<close>, a colon, a blank and a password of exactly \<open>L\<close>
  characters without a line break. The number is written in decimal: it is not empty,
  consists of digits, has no leading zero and denotes \<open>k\<close>. The header starts with
  \<open>Generated passwords:\<close> exactly when \<open>C > 1\<close>, and with \<open>Generated password:\<close>
  otherwise.
\<close>

theorem main_prints_passwords:
  assumes "valid_options atoi opts"
    and "L = effective_length atoi opts" and "C = effective_count atoi opts"
    and "special_set opts \<longrightarrow> 4 \<le> L"
  shows "3 \<le> L \<and> L \<le> 128 \<and> 1 \<le> C \<and> C \<le> 100 \<and>
         (\<exists>pws.
            main atoi argv0 opts stack g =
              Inr \<lparr>exit_code = 0,
                   stdout = header L (if special_set opts then 1 else 0) C @
                     concat (map (\<lambda>k. show_int (int k + 1) @ '': '' @ pws ! k @ ''\<newline>'')
                               [0..<nat C]),
                   stderr = []\<rparr> \<and>
            length pws = nat C \<and>
            (\<forall>pw \<in> set pws. length pw = nat L \<and> CHR ''\<newline>'' \<notin> set pw)) \<and>
         (\<forall>k < nat C.
            show_int (int k + 1) \<noteq> [] \<and>
            set (show_int (int k + 1)) \<subseteq> set ''0123456789'' \<and>
            hd (show_int (int k + 1)) \<noteq> CHR ''0'' \<and>
            decimal_value (show_int (int k + 1)) = k + 1) \<and>
         (prefix ''Generated passwords:'' (header L (if special_set opts then 1 else 0) C)
            \<longleftrightarrow> 1 < C) \<and>
         (prefix ''Generated password:'' (header L (if special_set opts then 1 else 0) C)
            \<longleftrightarrow> \<not> 1 < C)"
proof -
  let ?s = "if special_set opts then 1 else (0::int)"
  have parse: "parse_options atoi argv0 opts (12, 0, 1) = Inr (L, ?s, C)"
    using parse_options_valid [OF assms(1), of argv0 12 0 1]
    by (simp add: assms(2,3) effective_length_def effective_count_def)
  have ok: "\<not> (?s \<noteq> 0 \<and> L < 4)"
    using assms(4) by auto
  have num: "show_int (int k + 1) \<noteq> [] \<and>
             set (show_int (int k + 1)) \<subseteq> set ''0123456789'' \<and>
             hd (show_int (int k + 1)) \<noteq> CHR ''0'' \<and>
             decimal_value (show_int (int k + 1)) = k + 1" for k
  proof -
    have "0 < int k + 1" by simp
    from show_int_decimal [OF this] show ?thesis by auto
  qed
  show ?thesis
    using main_run_of_settings [OF parse ok, of stack g] num by blast
qed

theorem main_prints_passwords_witness:
  "valid_options libc_atoi [(CHR ''s'', []), (CHR ''c'', ''5''), (CHR ''l'', ''10'')] \<and>
   10 = effective_length libc_atoi [(CHR ''s'', []), (CHR ''c'', ''5''), (CHR ''l'', ''10'')] \<and>
   5 = effective_count libc_atoi [(CHR ''s'', []), (CHR ''c'', ''5''), (CHR ''l'', ''10'')] \<and>
   (4::int) \<le> 10 \<and>
   special_set [(CHR ''s'', []), (CHR ''c'', ''5''), (CHR ''l'', ''10'')] \<and>
   (\<exists>pws.
      main libc_atoi ''passgen'' [(CHR ''s'', []), (CHR ''c'', ''5''), (CHR ''l'', ''10'')]
           (\<lambda>k. NUL) (sconst 0) =
        Inr \<lparr>exit_code = 0,
             stdout = header 10 1 5 @
               concat (map (\<lambda>k. show_int (int k + 1) @ '': '' @ pws ! k @ ''\<newline>'')
                         [0..<nat 5]),
             stderr = []\<rparr> \<and>
      length pws = nat 5 \<and>
      (\<forall>pw \<in> set pws. length pw = nat 10 \<and> CHR ''\<newline>'' \<notin> set pw)) \<and>
   map (decimal_value \<circ> show_int) [1, 2, 3, 4, 5] = [1, 2, 3, 4, 5] \<and>
   map show_int [1, 2, 3, 4, 5] = [''1'', ''2'', ''3'', ''4'', ''5''] \<and>
   prefix ''Generated passwords:'' (header 10 1 5)"
proof -
  let ?opts = "[(CHR ''s'', []), (CHR ''c'', ''5''), (CHR ''l'', ''10'')]"
  have a: "libc_atoi ''5'' = 5" "libc_atoi ''10'' = 10"
    by (simp_all add: libc_atoi_def digit_value_def)
  have v: "valid_options libc_atoi ?opts"
    by (simp add: valid_options_def a)
  have l: "10 = effective_length libc_atoi ?opts"
    by (simp add: effective_length_def last_value_def a)
  have c: "5 = effective_count libc_atoi ?opts"
    by (simp add: effective_count_def last_value_def a)
  have s: "special_set ?opts" by (simp add: special_set_def)
  have h: "special_set ?opts \<longrightarrow> (4::int) \<le> 10" by simp
  have n: "map show_int [1, 2, 3, 4, 5] = [''1'', ''2'', ''3'', ''4'', ''5'']"
    by (simp add: show_int_def dec_nat.simps)
  have d: "map (decimal_value \<circ> show_int) [1, 2, 3, 4, 5] = [1, 2, 3, 4, 5]"
    by (simp add: show_int_def dec_nat.simps decimal_value_def)
  show ?thesis
    using v l c s n d main_prints_passwords [OF v l c h, of "''passgen''" "\<lambda>k. NUL" "sconst 0"]
    by simp
qed

text \<open>Runs of the option loop that return early, for comparison with claim C8: a length
  below 3 is reported by the loop itself, and \<open>-h\<close> ends the run with code 0.\<close>

lemma early_exit_examples:
  "main libc_atoi ''passgen'' [(CHR ''s'', []), (CHR ''l'', ''2'')] stack g =
     Inr \<lparr>exit_code = 1, stdout = [],
          stderr = ''Error: Password length must be at least 3\<newline>''\<rparr>"
  "main libc_atoi ''passgen'' [(CHR ''s'', []), (CHR ''l'', ''3''), (CHR ''h'', [])] stack g =
     Inr \<lparr>exit_code = 0, stdout = print_usage ''passgen'', stderr = []\<rparr>"
  by (simp_all add: main_def libc_atoi_def digit_value_def)


end
